theory Spec2Isabelle
  imports Main
begin

section \<open>Dijkstra.h: the hash table of node records and the index-tracked min-heap\<close>

text \<open>
  The embedding follows \<^verbatim>\<open>src/Dijkstra.h\<close>.

  \<^item> A \<^verbatim>\<open>MinHeapNode*\<close> is either \<^verbatim>\<open>NULL\<close> or the address of a slot of the table's
    \<^verbatim>\<open>nodes\<close> array: \<open>None\<close>, or \<open>Some a\<close> with \<open>a\<close> the slot's index.
  \<^item> The node records live in the table's array; the heap holds pointers to them. The heap
    operations therefore take and return the array of node records next to the heap.
  \<^item> \<^verbatim>\<open>void *data\<close> is \<open>None\<close> for \<^verbatim>\<open>NULL\<close>, otherwise \<open>Some\<close> of the key it points to;
    \<^verbatim>\<open>void *weight\<close> is the weight it points to (the comparator is the only reader).
  \<^item> \<^verbatim>\<open>size_t\<close> is \<open>nat\<close>. Indices stay below the length of an allocated array, so the
    arithmetic of the probe and of the child indices does not wrap; the two places where a
    wrap can be reached (\<^verbatim>\<open>parent_index(0)\<close> and the table size \<^verbatim>\<open>2*n + 1\<close>) have it
    written out for a 64-bit \<^verbatim>\<open>size_t\<close>.
  \<^item> \<^verbatim>\<open>exit(2)\<close> is the error \<open>Exit 2\<close>. Reading or writing outside an array, and
    dereferencing \<^verbatim>\<open>NULL\<close>, is the error \<open>Fault\<close> (the C program has no defined behaviour
    there).
  \<^item> An allocation whose byte count fits a 64-bit \<^verbatim>\<open>size_t\<close> is taken to succeed. Where
    the byte count does not fit, the model does what the code meets: \<^verbatim>\<open>calloc\<close> returns
    \<^verbatim>\<open>NULL\<close>, and the product passed to \<^verbatim>\<open>malloc\<close> wraps. A pointer is 8 bytes and a
    \<^verbatim>\<open>MinHeapNode\<close> (three pointers and a \<^verbatim>\<open>size_t\<close>) is 32 bytes.
  \<^item> \<^verbatim>\<open>HashInTree_find_seat\<close> and \<^verbatim>\<open>HashInTree_get_node_by_data\<close> receive the table by
    pointer to \<^verbatim>\<open>const\<close>; their embeddings return the table as the call leaves it, next to the pointer
    they return.
\<close>

datatype error = Exit nat | Fault

type_synonym ptr = "nat option"

record ('d, 'w) MinHeapNode =
  data :: "'d option"
  weight :: 'w
  parent :: ptr
  heapIndex :: nat

record ('d, 'w) HashInTree =
  length_ht :: nat
  size_ht :: nat
  nodes :: "('d, 'w) MinHeapNode list"

record MinHeap =
  heap :: "ptr list"
  size_mh :: nat
  capacity :: nat

subsection \<open>Sequencing of fallible steps, and memory accesses\<close>

definition ebind :: "error + 'a \<Rightarrow> ('a \<Rightarrow> error + 'b) \<Rightarrow> error + 'b" where
  "ebind m f = (case m of Inl e \<Rightarrow> Inl e | Inr x \<Rightarrow> f x)"

text \<open>\<^verbatim>\<open>minheap->heap[i]\<close> as a read and as a write.\<close>

definition heap_get :: "ptr list \<Rightarrow> nat \<Rightarrow> error + ptr" where
  "heap_get h i = (if i < length h then Inr (h ! i) else Inl Fault)"

definition heap_set :: "ptr list \<Rightarrow> nat \<Rightarrow> ptr \<Rightarrow> error + ptr list" where
  "heap_set h i p = (if i < length h then Inr (h[i := p]) else Inl Fault)"

text \<open>\<^verbatim>\<open>p->weight\<close> and \<^verbatim>\<open>p->heapIndex\<close> as reads, and \<^verbatim>\<open>p->heapIndex = v\<close>.\<close>

definition get_weight :: "('d, 'w) MinHeapNode list \<Rightarrow> ptr \<Rightarrow> error + 'w" where
  "get_weight ns p =
     (case p of None \<Rightarrow> Inl Fault
      | Some a \<Rightarrow> if a < length ns then Inr (weight (ns ! a)) else Inl Fault)"

definition get_heapIndex :: "('d, 'w) MinHeapNode list \<Rightarrow> ptr \<Rightarrow> error + nat" where
  "get_heapIndex ns p =
     (case p of None \<Rightarrow> Inl Fault
      | Some a \<Rightarrow> if a < length ns then Inr (heapIndex (ns ! a)) else Inl Fault)"

definition set_heapIndex ::
  "('d, 'w) MinHeapNode list \<Rightarrow> ptr \<Rightarrow> nat \<Rightarrow> error + ('d, 'w) MinHeapNode list" where
  "set_heapIndex ns p v =
     (case p of None \<Rightarrow> Inl Fault
      | Some a \<Rightarrow> if a < length ns then Inr (ns[a := (ns ! a)\<lparr>heapIndex := v\<rparr>]) else Inl Fault)"

lemma ebind_cong [fundef_cong]:
  "m = m' \<Longrightarrow> (\<And>x. m' = Inr x \<Longrightarrow> f x = f' x) \<Longrightarrow> ebind m f = ebind m' f'"
  by (simp add: ebind_def split: sum.splits)

subsection \<open>The hash table\<close>

text \<open>
  \<^verbatim>\<open>HashInTree_create\<close>: \<^verbatim>\<open>malloc\<close> does not initialise the array, and the loop writes only
  the \<^verbatim>\<open>data\<close> field. The argument \<open>mem\<close> is what the fresh memory holds, slot by slot;
  \<^verbatim>\<open>weight\<close>, \<^verbatim>\<open>parent\<close> and \<^verbatim>\<open>heapIndex\<close> keep that content. The byte count
  \<^verbatim>\<open>size*sizeof(MinHeapNode)\<close> is computed in \<^verbatim>\<open>size_t\<close>: when it wraps, the block is
  shorter than \<open>size\<close> slots and the initialising loop writes past its end.
\<close>

definition HashInTree_create ::
  "nat \<Rightarrow> (nat \<Rightarrow> ('d, 'w) MinHeapNode) \<Rightarrow> error + ('d, 'w) HashInTree" where
  "HashInTree_create sz mem =
     (if sz * 32 < 2 ^ 64
      then Inr \<lparr>length_ht = 0, size_ht = sz,
                nodes = map (\<lambda>i. (mem i)\<lparr>data := None\<rparr>) [0..<sz]\<rparr>
      else Inl Fault)"

text \<open>
  The test of the probe of \<^verbatim>\<open>HashInTree_find_seat\<close>: the slot is empty or its occupant
  compares equal to the key.
\<close>

definition seat_ok :: "('d \<Rightarrow> 'd \<Rightarrow> bool) \<Rightarrow> 'd \<Rightarrow> ('d, 'w) MinHeapNode \<Rightarrow> bool" where
  "seat_ok isEqual d n = (case data n of None \<Rightarrow> True | Some d' \<Rightarrow> isEqual d d')"

text \<open>
  The \<^verbatim>\<open>do ... while\<close> loop of \<^verbatim>\<open>HashInTree_find_seat\<close>, entered at \<open>index\<close>. The slot read
  must lie in the array. The first slot read is \<open>hash\<close> itself, so a \<open>hash\<close> outside the
  table is a fault of the first iteration; the loop carries that test along. The result is
  the pointer returned together with the table as the loop leaves it.
\<close>

function find_seat_loop ::
  "('d, 'w) HashInTree \<Rightarrow> 'd \<Rightarrow> ('d \<Rightarrow> 'd \<Rightarrow> bool) \<Rightarrow> nat \<Rightarrow> nat
     \<Rightarrow> error + (ptr \<times> ('d, 'w) HashInTree)" where
  "find_seat_loop hashintree d isEqual hash index =
     (if size_ht hashintree \<le> hash \<or> size_ht hashintree \<le> index
         \<or> length (nodes hashintree) \<le> index then Inl Fault
      else if seat_ok isEqual d (nodes hashintree ! index) then Inr (Some index, hashintree)
      else if (index + 1) mod size_ht hashintree \<noteq> hash
        then find_seat_loop hashintree d isEqual hash ((index + 1) mod size_ht hashintree)
        else Inr (None, hashintree))"
  by pat_completeness auto
termination
proof (relation "measure (\<lambda>(t, d, e, hash, index). (hash + size_ht t - Suc index) mod size_ht t)",
    goal_cases)
  case 1
  show ?case by simp
next
  case (2 t d e hash index)
  let ?n = "size_ht t"
  from 2 have h: "hash < ?n" and i: "index < ?n" and ne: "(index + 1) mod ?n \<noteq> hash"
    by simp_all
  show ?case
  proof (cases "Suc index = ?n")
    case True
    with ne have h0: "hash \<noteq> 0" by simp
    from True have a: "(hash + ?n - Suc ((index + 1) mod ?n)) mod ?n = hash - 1"
      using h h0 by (simp add: mod_if)
    from True have b: "(hash + ?n - Suc index) mod ?n = hash"
      using h by simp
    show ?thesis using a b h0 by simp
  next
    case False
    with i have lt: "Suc index < ?n" by simp
    then have m: "(index + 1) mod ?n = Suc index" by simp
    with ne have ne': "Suc index \<noteq> hash" by simp
    show ?thesis
    proof (cases "index < hash")
      case True
      with ne' have "Suc index < hash" by simp
      then have "(hash + ?n - Suc (Suc index)) mod ?n = hash - Suc (Suc index)"
        and "(hash + ?n - Suc index) mod ?n = hash - Suc index"
        using h by (simp_all add: mod_if)
      with \<open>Suc index < hash\<close> show ?thesis using m by simp
    next
      case False
      then have "(hash + ?n - Suc (Suc index)) mod ?n = hash + ?n - Suc (Suc index)"
        and "(hash + ?n - Suc index) mod ?n = hash + ?n - Suc index"
        using h lt by (simp_all add: mod_if)
      with lt show ?thesis using m by simp
    qed
  qed
qed

definition HashInTree_find_seat ::
  "('d, 'w) HashInTree \<Rightarrow> 'd \<Rightarrow> (nat \<Rightarrow> 'd \<Rightarrow> nat) \<Rightarrow> ('d \<Rightarrow> 'd \<Rightarrow> bool)
     \<Rightarrow> error + (ptr \<times> ('d, 'w) HashInTree)" where
  "HashInTree_find_seat hashintree d hashfunc isEqual =
     (let hash = hashfunc (size_ht hashintree) d
      in find_seat_loop hashintree d isEqual hash hash)"

text \<open>
  The loop of \<^verbatim>\<open>HashInTree_get_node_by_data\<close>: an empty slot ends the search with
  \<^verbatim>\<open>NULL\<close>, and the next index is computed by a comparison with \<^verbatim>\<open>size - 1\<close>.
\<close>

function get_node_loop ::
  "('d, 'w) HashInTree \<Rightarrow> 'd \<Rightarrow> ('d \<Rightarrow> 'd \<Rightarrow> bool) \<Rightarrow> nat \<Rightarrow> nat
     \<Rightarrow> error + (ptr \<times> ('d, 'w) HashInTree)" where
  "get_node_loop hashintree d isEqual hash index =
     (if size_ht hashintree \<le> hash \<or> size_ht hashintree \<le> index
         \<or> length (nodes hashintree) \<le> index then Inl Fault
      else (case data (nodes hashintree ! index) of
              None \<Rightarrow> Inr (None, hashintree)
            | Some d' \<Rightarrow>
                if isEqual d d' then Inr (Some index, hashintree)
                else if (if index = size_ht hashintree - 1 then 0 else index + 1) \<noteq> hash
                  then get_node_loop hashintree d isEqual hash
                         (if index = size_ht hashintree - 1 then 0 else index + 1)
                  else Inr (None, hashintree)))"
  by pat_completeness auto
termination
proof (relation "measure (\<lambda>(t, d, e, hash, index). (hash + size_ht t - Suc index) mod size_ht t)",
    goal_cases)
  case 1
  show ?case by simp
next
  case (2 t d e hash index d')
  let ?n = "size_ht t"
  let ?next = "if index = ?n - 1 then 0 else index + 1"
  from 2 have h: "hash < ?n" and i: "index < ?n" and ne: "?next \<noteq> hash"
    by simp_all
  show ?case
  proof (cases "index = ?n - 1")
    case True
    with ne have h0: "hash \<noteq> 0" by simp
    from True i have a: "(hash + ?n - Suc ?next) mod ?n = hash - 1"
      using h h0 by (simp add: mod_if)
    from True i have b: "(hash + ?n - Suc index) mod ?n = hash"
      using h by simp
    show ?thesis using a b h0 h True by simp
  next
    case False
    with i have lt: "Suc index < ?n" by simp
    from False have m: "?next = Suc index" by simp
    with ne have ne': "Suc index \<noteq> hash" by simp
    show ?thesis
    proof (cases "index < hash")
      case True
      with ne' have "Suc index < hash" by simp
      then have "(hash + ?n - Suc (Suc index)) mod ?n = hash - Suc (Suc index)"
        and "(hash + ?n - Suc index) mod ?n = hash - Suc index"
        using h by (simp_all add: mod_if)
      with \<open>Suc index < hash\<close> show ?thesis using m by simp
    next
      case False
      then have "(hash + ?n - Suc (Suc index)) mod ?n = hash + ?n - Suc (Suc index)"
        and "(hash + ?n - Suc index) mod ?n = hash + ?n - Suc index"
        using h lt by (simp_all add: mod_if)
      with lt show ?thesis using m by simp
    qed
  qed
qed

definition HashInTree_get_node_by_data ::
  "('d, 'w) HashInTree \<Rightarrow> 'd \<Rightarrow> (nat \<Rightarrow> 'd \<Rightarrow> nat) \<Rightarrow> ('d \<Rightarrow> 'd \<Rightarrow> bool)
     \<Rightarrow> error + (ptr \<times> ('d, 'w) HashInTree)" where
  "HashInTree_get_node_by_data hashintree d hashfunc isEqual =
     (let hash = hashfunc (size_ht hashintree) d
      in get_node_loop hashintree d isEqual hash hash)"

subsection \<open>The min-heap\<close>

text \<open>
  \<^verbatim>\<open>MinHeap_create\<close>: \<^verbatim>\<open>calloc\<close> fills the array of pointers with \<^verbatim>\<open>NULL\<close>. When
  \<^verbatim>\<open>size*sizeof(MinHeapNode*)\<close> does not fit \<^verbatim>\<open>size_t\<close>, \<^verbatim>\<open>calloc\<close> returns \<^verbatim>\<open>NULL\<close>: the
  array has no slot, and every access through \<^verbatim>\<open>minheap->heap\<close> is a fault.
\<close>

definition MinHeap_create :: "nat \<Rightarrow> MinHeap" where
  "MinHeap_create sz =
     \<lparr>heap = (if sz * 8 < 2 ^ 64 then replicate sz None else []),
      size_mh = 0, capacity = sz\<rparr>"

text \<open>\<^verbatim>\<open>(i - 1) >> 1\<close> on a 64-bit \<^verbatim>\<open>size_t\<close>: at \<open>0\<close> the subtraction wraps.\<close>

definition parent_index :: "nat \<Rightarrow> nat" where
  "parent_index i = (if i = 0 then (2 ^ 64 - 1) div 2 else (i - 1) div 2)"

definition left_child_index :: "nat \<Rightarrow> nat" where
  "left_child_index i = 2 * i + 1"

definition right_child_index :: "nat \<Rightarrow> nat" where
  "right_child_index i = 2 * (i + 1)"

text \<open>The two statements after the loop of \<^verbatim>\<open>MinHeap_bubble_up\<close>.\<close>

definition bubble_up_place ::
  "ptr \<Rightarrow> MinHeap \<Rightarrow> ('d, 'w) MinHeapNode list \<Rightarrow> nat
     \<Rightarrow> error + (MinHeap \<times> ('d, 'w) MinHeapNode list)" where
  "bubble_up_place this_node minheap ns curr_index =
     ebind (set_heapIndex ns this_node curr_index) (\<lambda>ns'.
     ebind (heap_set (heap minheap) curr_index this_node) (\<lambda>h'.
     Inr (minheap\<lparr>heap := h'\<rparr>, ns')))"

text \<open>The \<^verbatim>\<open>while (curr_index > 0)\<close> loop of \<^verbatim>\<open>MinHeap_bubble_up\<close>, then the placement.\<close>

function bubble_up_loop ::
  "('w \<Rightarrow> 'w \<Rightarrow> bool) \<Rightarrow> ptr \<Rightarrow> MinHeap \<Rightarrow> ('d, 'w) MinHeapNode list \<Rightarrow> nat
     \<Rightarrow> error + (MinHeap \<times> ('d, 'w) MinHeapNode list)" where
  "bubble_up_loop isBetterThan this_node minheap ns curr_index =
     (if curr_index > 0 then
        ebind (get_weight ns this_node) (\<lambda>tw.
        ebind (heap_get (heap minheap) (parent_index curr_index)) (\<lambda>pp.
        ebind (get_weight ns pp) (\<lambda>pw.
        if isBetterThan tw pw then
          ebind (set_heapIndex ns pp curr_index) (\<lambda>ns'.
          ebind (heap_set (heap minheap) curr_index pp) (\<lambda>h'.
          bubble_up_loop isBetterThan this_node (minheap\<lparr>heap := h'\<rparr>) ns'
            (parent_index curr_index)))
        else bubble_up_place this_node minheap ns curr_index)))
      else bubble_up_place this_node minheap ns curr_index)"
  by pat_completeness auto
termination
  by (relation "measure (\<lambda>(b, p, m, ns, i). i)") (auto simp: parent_index_def)

definition MinHeap_bubble_up ::
  "MinHeap \<Rightarrow> ('d, 'w) MinHeapNode list \<Rightarrow> nat \<Rightarrow> ('w \<Rightarrow> 'w \<Rightarrow> bool)
     \<Rightarrow> error + (MinHeap \<times> ('d, 'w) MinHeapNode list)" where
  "MinHeap_bubble_up minheap ns curr_index isBetterThan =
     ebind (heap_get (heap minheap) curr_index) (\<lambda>this_node.
     bubble_up_loop isBetterThan this_node minheap ns curr_index)"

text \<open>
  \<^verbatim>\<open>MinHeap_update_key\<close>. A new node is stored at \<^verbatim>\<open>heap[size++]\<close>; the sift-up then
  starts from \<^verbatim>\<open>node->heapIndex\<close>, whatever that field holds: the function does not
  write it before the call.
\<close>

definition MinHeap_update_key ::
  "MinHeap \<Rightarrow> ('d, 'w) MinHeapNode list \<Rightarrow> ptr \<Rightarrow> bool \<Rightarrow> ('w \<Rightarrow> 'w \<Rightarrow> bool)
     \<Rightarrow> error + (MinHeap \<times> ('d, 'w) MinHeapNode list)" where
  "MinHeap_update_key minheap ns node NodeIsNew isBetterThan =
     ebind (if NodeIsNew then
              (if size_mh minheap = capacity minheap then Inl (Exit 2)
               else ebind (heap_set (heap minheap) (size_mh minheap) node) (\<lambda>h'.
                    Inr (minheap\<lparr>heap := h', size_mh := size_mh minheap + 1\<rparr>)))
            else Inr minheap) (\<lambda>minheap'.
     ebind (get_heapIndex ns node) (\<lambda>i.
     MinHeap_bubble_up minheap' ns i isBetterThan))"

text \<open>
  The choice of the child in the sift-down of \<^verbatim>\<open>MinHeap_pluck_min\<close>:
  \<^verbatim>\<open>smaller_child_ind\<close> is the left child unless the right child exists and its weight is
  better than the left child's.
\<close>

definition smaller_child ::
  "('w \<Rightarrow> 'w \<Rightarrow> bool) \<Rightarrow> MinHeap \<Rightarrow> ('d, 'w) MinHeapNode list \<Rightarrow> nat \<Rightarrow> nat \<Rightarrow> error + nat" where
  "smaller_child isBetterThan minheap ns left_child_ind right_child_ind =
     (if right_child_ind < size_mh minheap then
        ebind (heap_get (heap minheap) right_child_ind) (\<lambda>rp.
        ebind (get_weight ns rp) (\<lambda>rw.
        ebind (heap_get (heap minheap) left_child_ind) (\<lambda>lp.
        ebind (get_weight ns lp) (\<lambda>lw.
        Inr (if isBetterThan rw lw then right_child_ind else left_child_ind)))))
      else Inr left_child_ind)"

lemma smaller_child_range:
  "smaller_child isBetterThan minheap ns l r = Inr s \<Longrightarrow> s = l \<or> (s = r \<and> r < size_mh minheap)"
  by (auto simp: smaller_child_def ebind_def split: if_splits sum.splits)

text \<open>The two statements after the loop of \<^verbatim>\<open>MinHeap_pluck_min\<close>.\<close>

definition pluck_min_place ::
  "ptr \<Rightarrow> MinHeap \<Rightarrow> ('d, 'w) MinHeapNode list \<Rightarrow> nat
     \<Rightarrow> error + (MinHeap \<times> ('d, 'w) MinHeapNode list)" where
  "pluck_min_place curr_node minheap ns curr_index =
     ebind (heap_set (heap minheap) curr_index curr_node) (\<lambda>h'.
     ebind (set_heapIndex ns curr_node curr_index) (\<lambda>ns'.
     Inr (minheap\<lparr>heap := h'\<rparr>, ns')))"

text \<open>
  The \<^verbatim>\<open>while (left_child_ind < minheap->size)\<close> loop of \<^verbatim>\<open>MinHeap_pluck_min\<close>, then the
  placement. The two child indices are those of \<open>curr_index\<close> at every test of the loop,
  so they are computed from it here.
\<close>

function pluck_min_loop ::
  "('w \<Rightarrow> 'w \<Rightarrow> bool) \<Rightarrow> ptr \<Rightarrow> MinHeap \<Rightarrow> ('d, 'w) MinHeapNode list \<Rightarrow> nat
     \<Rightarrow> error + (MinHeap \<times> ('d, 'w) MinHeapNode list)" where
  "pluck_min_loop isBetterThan curr_node minheap ns curr_index =
     (if left_child_index curr_index < size_mh minheap then
        ebind (smaller_child isBetterThan minheap ns
                 (left_child_index curr_index) (right_child_index curr_index))
          (\<lambda>smaller_child_ind.
        ebind (heap_get (heap minheap) smaller_child_ind) (\<lambda>sp.
        ebind (get_weight ns sp) (\<lambda>sw.
        ebind (get_weight ns curr_node) (\<lambda>cw.
        if isBetterThan sw cw then
          ebind (set_heapIndex ns sp curr_index) (\<lambda>ns'.
          ebind (heap_set (heap minheap) curr_index sp) (\<lambda>h'.
          pluck_min_loop isBetterThan curr_node (minheap\<lparr>heap := h'\<rparr>) ns' smaller_child_ind))
        else pluck_min_place curr_node minheap ns curr_index))))
      else pluck_min_place curr_node minheap ns curr_index)"
  by pat_completeness auto

termination
proof (relation "measure (\<lambda>(b, p, m, ns, i). size_mh m - i)", goal_cases)
  case 1
  show ?case by simp
next
  case (2 isBetterThan curr_node minheap ns curr_index s sp sw cw ns' h')
  from 2(2) have "s = left_child_index curr_index
      \<or> (s = right_child_index curr_index \<and> right_child_index curr_index < size_mh minheap)"
    by (rule smaller_child_range)
  with 2(1) show ?case
    by (auto simp: left_child_index_def right_child_index_def)
qed

text \<open>
  \<^verbatim>\<open>MinHeap_pluck_min\<close>. The result is the returned pointer (\<open>None\<close> for \<^verbatim>\<open>NULL\<close>) with
  the heap and the node records as the call leaves them.
\<close>

definition MinHeap_pluck_min ::
  "MinHeap \<Rightarrow> ('d, 'w) MinHeapNode list \<Rightarrow> ('w \<Rightarrow> 'w \<Rightarrow> bool)
     \<Rightarrow> error + (ptr \<times> MinHeap \<times> ('d, 'w) MinHeapNode list)" where
  "MinHeap_pluck_min minheap ns isBetterThan =
     (if size_mh minheap = 0 then Inr (None, minheap, ns)
      else
        ebind (heap_get (heap minheap) 0) (\<lambda>minnode.
        ebind (heap_get (heap minheap) (size_mh minheap - 1)) (\<lambda>curr_node.
        ebind (heap_set (heap minheap) (size_mh minheap - 1) None) (\<lambda>h'.
        if size_mh minheap - 1 = 0
        then Inr (minnode, minheap\<lparr>heap := h', size_mh := size_mh minheap - 1\<rparr>, ns)
        else
          ebind (pluck_min_loop isBetterThan curr_node
                   (minheap\<lparr>heap := h', size_mh := size_mh minheap - 1\<rparr>) ns 0)
            (\<lambda>(minheap', ns'). Inr (minnode, minheap', ns'))))))"

subsection \<open>The engine\<close>

text \<open>
  The \<^verbatim>\<open>while\<close> loop of \<^verbatim>\<open>Dijkstra_1source_to_all_else\<close>. The callback receives the heap,
  the table and the node just extracted, and returns them as it leaves them, or ends the run.
  Nothing bounds the number of iterations for an arbitrary callback: a run that does not
  end has the value \<open>None\<close>.
\<close>

partial_function (option) Dijkstra_loop ::
  "('w \<Rightarrow> 'w \<Rightarrow> bool)
     \<Rightarrow> (MinHeap \<Rightarrow> ('d, 'w) HashInTree \<Rightarrow> ptr \<Rightarrow> error + (MinHeap \<times> ('d, 'w) HashInTree))
     \<Rightarrow> MinHeap \<Rightarrow> ('d, 'w) HashInTree \<Rightarrow> (error + ('d, 'w) HashInTree) option" where
  "Dijkstra_loop isBetterThan send_neighbors minheap hashintree =
     (case MinHeap_pluck_min minheap (nodes hashintree) isBetterThan of
        Inl e \<Rightarrow> Some (Inl e)
      | Inr (min_node, minheap', ns') \<Rightarrow>
          (case min_node of
             None \<Rightarrow> Some (Inr (hashintree\<lparr>nodes := ns'\<rparr>))
           | Some a \<Rightarrow>
               (case send_neighbors minheap' (hashintree\<lparr>nodes := ns'\<rparr>) (Some a) of
                  Inl e \<Rightarrow> Some (Inl e)
                | Inr (minheap'', hashintree'') \<Rightarrow>
                    Dijkstra_loop isBetterThan send_neighbors minheap'' hashintree'')))"

declare Dijkstra_loop.simps [code]

text \<open>The three stores through \<^verbatim>\<open>sourcenode\<close>.\<close>

definition write_source ::
  "('d, 'w) MinHeapNode list \<Rightarrow> ptr \<Rightarrow> 'd \<Rightarrow> 'w \<Rightarrow> error + ('d, 'w) MinHeapNode list" where
  "write_source ns p sourceData sourceWeight =
     (case p of None \<Rightarrow> Inl Fault
      | Some a \<Rightarrow>
          if a < length ns
          then Inr (ns[a := (ns ! a)\<lparr>data := Some sourceData, weight := sourceWeight,
                                     parent := None\<rparr>])
          else Inl Fault)"

text \<open>
  \<^verbatim>\<open>Dijkstra_1source_to_all_else\<close>; \<open>mem\<close> is the content of the memory that
  \<^verbatim>\<open>HashInTree_create\<close> obtains. The table size \<^verbatim>\<open>2*total_number_of_nodes + 1\<close> is
  computed in a 64-bit \<^verbatim>\<open>size_t\<close>.
\<close>

definition Dijkstra_1source_to_all_else ::
  "(nat \<Rightarrow> ('d, 'w) MinHeapNode) \<Rightarrow> 'd \<Rightarrow> 'w \<Rightarrow> nat \<Rightarrow> (nat \<Rightarrow> 'd \<Rightarrow> nat) \<Rightarrow> ('d \<Rightarrow> 'd \<Rightarrow> bool)
     \<Rightarrow> ('w \<Rightarrow> 'w \<Rightarrow> bool)
     \<Rightarrow> (MinHeap \<Rightarrow> ('d, 'w) HashInTree \<Rightarrow> ptr \<Rightarrow> error + (MinHeap \<times> ('d, 'w) HashInTree))
     \<Rightarrow> (error + ('d, 'w) HashInTree) option" where
  "Dijkstra_1source_to_all_else mem sourceData sourceWeight total_number_of_nodes
       hashfunc isEqual isBetterThan send_neighbors =
     (let minheap = MinHeap_create total_number_of_nodes
      in case HashInTree_create ((2 * total_number_of_nodes + 1) mod 2 ^ 64) mem of
           Inl e \<Rightarrow> Some (Inl e)
         | Inr hashintree0 \<Rightarrow>
      (case HashInTree_find_seat hashintree0 sourceData hashfunc isEqual of
           Inl e \<Rightarrow> Some (Inl e)
         | Inr (sourcenode, hashintree) \<Rightarrow>
             (case write_source (nodes hashintree) sourcenode sourceData sourceWeight of
                Inl e \<Rightarrow> Some (Inl e)
              | Inr ns \<Rightarrow>
                  (case MinHeap_update_key minheap ns sourcenode True isBetterThan of
                     Inl e \<Rightarrow> Some (Inl e)
                   | Inr (minheap', ns') \<Rightarrow>
                       Dijkstra_loop isBetterThan send_neighbors minheap'
                         (hashintree\<lparr>nodes := ns'\<rparr>)))))"

subsection \<open>The sift-down in the words of the specification\<close>

text \<open>
  The specification describes the sift-down of the extraction as a sequence of swaps of the
  replacement with a child, each swap updating the \<^verbatim>\<open>heapIndex\<close> of the two nodes it
  moves. \<open>swap_slots\<close> is one such swap; \<open>sift_down_swaps\<close> repeats it from slot \<open>i\<close>
  while the chosen child is better than the node in slot \<open>i\<close>. They are compared with
  the loop of the source below.
\<close>

definition swap_slots ::
  "MinHeap \<Rightarrow> ('d, 'w) MinHeapNode list \<Rightarrow> nat \<Rightarrow> nat
     \<Rightarrow> error + (MinHeap \<times> ('d, 'w) MinHeapNode list)" where
  "swap_slots minheap ns i j =
     ebind (heap_get (heap minheap) i) (\<lambda>p.
     ebind (heap_get (heap minheap) j) (\<lambda>q.
     ebind (heap_set (heap minheap) i q) (\<lambda>h1.
     ebind (heap_set h1 j p) (\<lambda>h2.
     ebind (set_heapIndex ns q i) (\<lambda>ns1.
     ebind (set_heapIndex ns1 p j) (\<lambda>ns2.
     Inr (minheap\<lparr>heap := h2\<rparr>, ns2)))))))"

lemma swap_slots_size:
  "swap_slots minheap ns i j = Inr (minheap', ns') \<Longrightarrow> size_mh minheap' = size_mh minheap"
  by (auto simp: swap_slots_def ebind_def split: sum.splits)

function sift_down_swaps ::
  "('w \<Rightarrow> 'w \<Rightarrow> bool) \<Rightarrow> MinHeap \<Rightarrow> ('d, 'w) MinHeapNode list \<Rightarrow> nat
     \<Rightarrow> error + (MinHeap \<times> ('d, 'w) MinHeapNode list)" where
  "sift_down_swaps isBetterThan minheap ns i =
     (if left_child_index i < size_mh minheap then
        ebind (smaller_child isBetterThan minheap ns (left_child_index i) (right_child_index i))
          (\<lambda>c.
        ebind (heap_get (heap minheap) c) (\<lambda>cp.
        ebind (get_weight ns cp) (\<lambda>cw.
        ebind (heap_get (heap minheap) i) (\<lambda>rp.
        ebind (get_weight ns rp) (\<lambda>rw.
        if isBetterThan cw rw then
          ebind (swap_slots minheap ns i c) (\<lambda>(minheap', ns').
          sift_down_swaps isBetterThan minheap' ns' c)
        else Inr (minheap, ns))))))
      else Inr (minheap, ns))"
  by pat_completeness auto
termination
proof (relation "measure (\<lambda>(b, m, ns, i). size_mh m - i)", goal_cases)
  case 1
  show ?case by simp
next
  case (2 isBetterThan minheap ns i c cp cw rp rw x minheap' ns')
  from 2(2) have "c = left_child_index i
      \<or> (c = right_child_index i \<and> right_child_index i < size_mh minheap)"
    by (rule smaller_child_range)
  moreover from 2 have "size_mh minheap' = size_mh minheap"
    by (auto dest: swap_slots_size)
  ultimately show ?case using 2(1)
    by (auto simp: left_child_index_def right_child_index_def)
qed

subsection \<open>The callbacks of the sample program\<close>

text \<open>
  The sample program of the repository keys its nodes by an \<^verbatim>\<open>int\<close> and weighs them by an
  \<^verbatim>\<open>int\<close>: \<^verbatim>\<open>hashfunc\<close> is \<^verbatim>\<open>*(int*)data % tableSize\<close> (the \<^verbatim>\<open>int\<close> converted to
  \<^verbatim>\<open>size_t\<close>), \<^verbatim>\<open>isEqual\<close> is \<^verbatim>\<open>==\<close> and \<^verbatim>\<open>isBetterThan\<close> is \<^verbatim>\<open><\<close>. They serve as concrete
  inputs, with a callback that sends no neighbour and a memory filled with zero bytes.
\<close>

definition hashfunc_int :: "nat \<Rightarrow> int \<Rightarrow> nat" where
  "hashfunc_int tableSize d = nat (d mod 2 ^ 64) mod tableSize"

definition isEqual_int :: "int \<Rightarrow> int \<Rightarrow> bool" where
  "isEqual_int data1 data2 = (data1 = data2)"

definition isBetterThan_int :: "int \<Rightarrow> int \<Rightarrow> bool" where
  "isBetterThan_int weight1 weight2 = (weight1 < weight2)"

definition send_no_neighbors ::
  "MinHeap \<Rightarrow> ('d, 'w) HashInTree \<Rightarrow> ptr \<Rightarrow> error + (MinHeap \<times> ('d, 'w) HashInTree)" where
  "send_no_neighbors minheap hashintree min_node = Inr (minheap, hashintree)"

definition zeroed_memory :: "nat \<Rightarrow> (int, int) MinHeapNode" where
  "zeroed_memory i = \<lparr>data = None, weight = 0, parent = None, heapIndex = 0\<rparr>"

text \<open>A heap of four nodes, and a fifth node that is not in the heap.\<close>

definition sample_nodes :: "(int, int) MinHeapNode list" where
  "sample_nodes =
     [\<lparr>data = Some 10, weight = 1, parent = None, heapIndex = 0\<rparr>,
      \<lparr>data = Some 11, weight = 3, parent = Some 0, heapIndex = 1\<rparr>,
      \<lparr>data = Some 12, weight = 2, parent = Some 0, heapIndex = 2\<rparr>,
      \<lparr>data = Some 13, weight = 5, parent = Some 1, heapIndex = 3\<rparr>,
      \<lparr>data = Some 14, weight = 3, parent = Some 2, heapIndex = 0\<rparr>]"

definition sample_heap :: MinHeap where
  "sample_heap = \<lparr>heap = [Some 0, Some 1, Some 2, Some 3], size_mh = 4, capacity = 4\<rparr>"

subsection \<open>The invariants of the heap, as tests\<close>

text \<open>
  The heap property on the resident slots \<open>1 .. size - 1\<close>: the weight of a slot is not
  better than the weight of its parent slot.
\<close>

definition heap_property ::
  "('w \<Rightarrow> 'w \<Rightarrow> bool) \<Rightarrow> MinHeap \<Rightarrow> ('d, 'w) MinHeapNode list \<Rightarrow> bool" where
  "heap_property isBetterThan minheap ns =
     list_all (\<lambda>i. case (heap minheap ! i, heap minheap ! parent_index i) of
                      (Some a, Some b) \<Rightarrow> \<not> isBetterThan (weight (ns ! a)) (weight (ns ! b))
                    | _ \<Rightarrow> False)
       [1..<size_mh minheap]"

text \<open>Every resident slot holds a node whose \<^verbatim>\<open>heapIndex\<close> is the slot's index.\<close>

definition heapIndex_consistent :: "MinHeap \<Rightarrow> ('d, 'w) MinHeapNode list \<Rightarrow> bool" where
  "heapIndex_consistent minheap ns =
     list_all (\<lambda>i. case heap minheap ! i of
                      Some a \<Rightarrow> a < length ns \<and> heapIndex (ns ! a) = i
                    | None \<Rightarrow> False)
       [0..<size_mh minheap]"

text \<open>The weight of the node in a slot; used for resident slots only.\<close>

definition slot_weight :: "MinHeap \<Rightarrow> ('d, 'w) MinHeapNode list \<Rightarrow> nat \<Rightarrow> 'w" where
  "slot_weight minheap ns k = weight (ns ! the (heap minheap ! k))"

section \<open>Properties\<close>

declare find_seat_loop.simps [simp del]
declare get_node_loop.simps [simp del]
declare bubble_up_loop.simps [simp del]
declare pluck_min_loop.simps [simp del]
declare sift_down_swaps.simps [simp del]

subsection \<open>Insertion into a full heap\<close>

text \<open>
  C8. When the size of the heap equals its capacity, \<^verbatim>\<open>MinHeap_update_key\<close> with
  \<^verbatim>\<open>NodeIsNew\<close> true ends the run with \<^verbatim>\<open>exit(2)\<close>, whatever the node pointer, the node
  records and the heap array are: the test comes before any access to them, so nothing is
  read or written before the exit.
\<close>

theorem update_key_full_exits:
  "size_mh minheap = capacity minheap \<Longrightarrow>
     MinHeap_update_key minheap ns node True isBetterThan = Inl (Exit 2)"
  by (simp add: MinHeap_update_key_def ebind_def)

theorem update_key_full_exits_witness:
  "size_mh \<lparr>heap = [Some 0], size_mh = 1, capacity = 1\<rparr>
     = capacity \<lparr>heap = [Some 0], size_mh = 1, capacity = 1\<rparr>
   \<and> MinHeap_update_key \<lparr>heap = [Some 0], size_mh = 1, capacity = 1\<rparr>
        [\<lparr>data = Some (0::int), weight = (0::int), parent = None, heapIndex = 0\<rparr>,
         \<lparr>data = Some 1, weight = 3, parent = Some 0, heapIndex = 0\<rparr>]
        (Some 1) True isBetterThan_int = Inl (Exit 2)"
  using update_key_full_exits
    [of "\<lparr>heap = [Some 0], size_mh = 1, capacity = 1\<rparr>"
        "[\<lparr>data = Some (0::int), weight = (0::int), parent = None, heapIndex = 0\<rparr>,
          \<lparr>data = Some 1, weight = 3, parent = Some 0, heapIndex = 0\<rparr>]"
        "Some 1" isBetterThan_int]
  by simp

subsection \<open>The probes of the hash table, step by step\<close>

lemma find_seat_loop_fault:
  "size_ht t \<le> hash \<or> size_ht t \<le> index \<or> length (nodes t) \<le> index \<Longrightarrow>
   find_seat_loop t d isEqual hash index = Inl Fault"
  by (subst find_seat_loop.simps) simp

lemma find_seat_loop_hit:
  "hash < size_ht t \<Longrightarrow> index < size_ht t \<Longrightarrow> index < length (nodes t) \<Longrightarrow>
   seat_ok isEqual d (nodes t ! index) \<Longrightarrow>
   find_seat_loop t d isEqual hash index = Inr (Some index, t)"
  by (subst find_seat_loop.simps) simp

lemma find_seat_loop_wrap:
  "hash < size_ht t \<Longrightarrow> index < size_ht t \<Longrightarrow> index < length (nodes t) \<Longrightarrow>
   \<not> seat_ok isEqual d (nodes t ! index) \<Longrightarrow> (index + 1) mod size_ht t = hash \<Longrightarrow>
   find_seat_loop t d isEqual hash index = Inr (None, t)"
  by (subst find_seat_loop.simps) simp

lemma find_seat_loop_next:
  "hash < size_ht t \<Longrightarrow> index < size_ht t \<Longrightarrow> index < length (nodes t) \<Longrightarrow>
   \<not> seat_ok isEqual d (nodes t ! index) \<Longrightarrow> (index + 1) mod size_ht t \<noteq> hash \<Longrightarrow>
   find_seat_loop t d isEqual hash index =
     find_seat_loop t d isEqual hash ((index + 1) mod size_ht t)"
  by (subst find_seat_loop.simps) simp

lemma get_node_loop_fault:
  "size_ht t \<le> hash \<or> size_ht t \<le> index \<or> length (nodes t) \<le> index \<Longrightarrow>
   get_node_loop t d isEqual hash index = Inl Fault"
  by (subst get_node_loop.simps) simp

lemma get_node_loop_empty:
  "hash < size_ht t \<Longrightarrow> index < size_ht t \<Longrightarrow> index < length (nodes t) \<Longrightarrow>
   data (nodes t ! index) = None \<Longrightarrow>
   get_node_loop t d isEqual hash index = Inr (None, t)"
  by (subst get_node_loop.simps) simp

lemma get_node_loop_hit:
  "hash < size_ht t \<Longrightarrow> index < size_ht t \<Longrightarrow> index < length (nodes t) \<Longrightarrow>
   data (nodes t ! index) = Some d' \<Longrightarrow> isEqual d d' \<Longrightarrow>
   get_node_loop t d isEqual hash index = Inr (Some index, t)"
  by (subst get_node_loop.simps) simp

lemma get_node_loop_wrap:
  "hash < size_ht t \<Longrightarrow> index < size_ht t \<Longrightarrow> index < length (nodes t) \<Longrightarrow>
   data (nodes t ! index) = Some d' \<Longrightarrow> \<not> isEqual d d' \<Longrightarrow>
   (index + 1) mod size_ht t = hash \<Longrightarrow>
   get_node_loop t d isEqual hash index = Inr (None, t)"
  by (subst get_node_loop.simps) (auto simp: mod_if split: if_splits)

lemma get_node_loop_next:
  "hash < size_ht t \<Longrightarrow> index < size_ht t \<Longrightarrow> index < length (nodes t) \<Longrightarrow>
   data (nodes t ! index) = Some d' \<Longrightarrow> \<not> isEqual d d' \<Longrightarrow>
   (index + 1) mod size_ht t \<noteq> hash \<Longrightarrow>
   get_node_loop t d isEqual hash index =
     get_node_loop t d isEqual hash ((index + 1) mod size_ht t)"
  by (subst get_node_loop.simps) (auto simp: mod_if split: if_splits)

subsection \<open>A full table without a match\<close>

lemma find_seat_loop_no_seat:
  "\<forall>i<size_ht t. \<not> seat_ok isEqual d (nodes t ! i) \<Longrightarrow> length (nodes t) = size_ht t \<Longrightarrow>
   hash < size_ht t \<Longrightarrow> index < size_ht t \<Longrightarrow>
   find_seat_loop t d isEqual hash index = Inr (None, t)"
proof (induction t d isEqual hash index rule: find_seat_loop.induct)
  case (1 t d isEqual hash index)
  from "1.prems" have no: "\<not> seat_ok isEqual d (nodes t ! index)" by simp
  show ?case
  proof (cases "(index + 1) mod size_ht t = hash")
    case True
    with no "1.prems" show ?thesis
      by (simp add: find_seat_loop_wrap)
  next
    case False
    from "1.prems" have "(index + 1) mod size_ht t < size_ht t" by simp
    with "1.IH" False no "1.prems"
    have "find_seat_loop t d isEqual hash ((index + 1) mod size_ht t) = Inr (None, t)"
      by simp
    with False no "1.prems" show ?thesis
      by (simp add: find_seat_loop_next)
  qed
qed

text \<open>
  C2, as the code has it. On a completely full table in which no occupant compares equal to
  the key, \<^verbatim>\<open>HashInTree_find_seat\<close> returns \<^verbatim>\<open>NULL\<close> to its caller, and leaves the table as
  it was: the probe comes back to its starting slot and the function returns normally. It
  does not end the run; what to do with the \<^verbatim>\<open>NULL\<close> is the caller's decision.
\<close>

theorem find_seat_full_returns_null:
  assumes "length (nodes t) = size_ht t"
    and "hashfunc (size_ht t) d < size_ht t"
    and "\<forall>i<size_ht t. \<exists>d'. data (nodes t ! i) = Some d' \<and> \<not> isEqual d d'"
  shows "HashInTree_find_seat t d hashfunc isEqual = Inr (None, t)"
proof -
  from assms(3) have "\<forall>i<size_ht t. \<not> seat_ok isEqual d (nodes t ! i)"
    by (auto simp: seat_ok_def)
  with assms(1,2) show ?thesis
    unfolding HashInTree_find_seat_def Let_def
    by (intro find_seat_loop_no_seat) simp_all
qed

theorem find_seat_full_returns_null_witness:
  "length (nodes \<lparr>length_ht = 0, size_ht = 2,
      nodes = [\<lparr>data = Some (0::int), weight = (0::int), parent = None, heapIndex = 0\<rparr>,
               \<lparr>data = Some 1, weight = 3, parent = Some 0, heapIndex = 0\<rparr>]\<rparr>) = 2
   \<and> hashfunc_int 2 2 < 2
   \<and> \<not> isEqual_int 2 0 \<and> \<not> isEqual_int 2 1
   \<and> HashInTree_find_seat \<lparr>length_ht = 0, size_ht = 2,
      nodes = [\<lparr>data = Some (0::int), weight = (0::int), parent = None, heapIndex = 0\<rparr>,
               \<lparr>data = Some 1, weight = 3, parent = Some 0, heapIndex = 0\<rparr>]\<rparr>
        2 hashfunc_int isEqual_int
     = Inr (None, \<lparr>length_ht = 0, size_ht = 2,
      nodes = [\<lparr>data = Some (0::int), weight = (0::int), parent = None, heapIndex = 0\<rparr>,
               \<lparr>data = Some 1, weight = 3, parent = Some 0, heapIndex = 0\<rparr>]\<rparr>)"
  using find_seat_full_returns_null
    [of "\<lparr>length_ht = 0, size_ht = 2,
      nodes = [\<lparr>data = Some (0::int), weight = (0::int), parent = None, heapIndex = 0\<rparr>,
               \<lparr>data = Some 1, weight = 3, parent = Some 0, heapIndex = 0\<rparr>]\<rparr>"
        hashfunc_int 2 isEqual_int]
  by (simp add: less_Suc_eq numeral_2_eq_2 hashfunc_int_def isEqual_int_def)

text \<open>
  The claim as the specification words it (a fatal end of the run) fails on the full
  one-slot table that holds key \<open>0\<close>, probed for key \<open>1\<close>: the call returns \<^verbatim>\<open>NULL\<close>.
\<close>

theorem find_seat_full_not_fatal:
  "HashInTree_find_seat
     \<lparr>length_ht = 0, size_ht = 1,
      nodes = [\<lparr>data = Some (0::int), weight = (0::int), parent = None, heapIndex = 0\<rparr>]\<rparr>
     1 hashfunc_int isEqual_int
   = Inr (None, \<lparr>length_ht = 0, size_ht = 1,
      nodes = [\<lparr>data = Some (0::int), weight = (0::int), parent = None, heapIndex = 0\<rparr>]\<rparr>)"
  by (simp add: HashInTree_find_seat_def find_seat_loop.simps seat_ok_def hashfunc_int_def
      isEqual_int_def)

subsection \<open>Lookup against seat-claiming\<close>

lemma get_node_loop_find_seat_loop:
  "get_node_loop t d isEqual hash index =
     (case find_seat_loop t d isEqual hash index of
        Inr (Some i, t') \<Rightarrow>
          if data (nodes t ! i) = None then Inr (None, t') else Inr (Some i, t')
      | r \<Rightarrow> r)"
proof (induction t d isEqual hash index rule: find_seat_loop.induct)
  case (1 t d isEqual hash index)
  show ?case
  proof (cases "size_ht t \<le> hash \<or> size_ht t \<le> index \<or> length (nodes t) \<le> index")
    case True
    then show ?thesis
      by (simp add: find_seat_loop_fault get_node_loop_fault)
  next
    case False
    then have b: "hash < size_ht t" "index < size_ht t" "index < length (nodes t)"
      by simp_all
    show ?thesis
    proof (cases "data (nodes t ! index)")
      case None
      then have "seat_ok isEqual d (nodes t ! index)" by (simp add: seat_ok_def)
      with b None show ?thesis
        by (simp add: find_seat_loop_hit get_node_loop_empty)
    next
      case (Some d')
      show ?thesis
      proof (cases "isEqual d d'")
        case True
        with Some have "seat_ok isEqual d (nodes t ! index)" by (simp add: seat_ok_def)
        with b Some True show ?thesis
          by (simp add: find_seat_loop_hit get_node_loop_hit)
      next
        case ne: False
        with Some have no: "\<not> seat_ok isEqual d (nodes t ! index)" by (simp add: seat_ok_def)
        show ?thesis
        proof (cases "(index + 1) mod size_ht t = hash")
          case True
          with b Some ne no show ?thesis
            by (simp add: find_seat_loop_wrap get_node_loop_wrap)
        next
          case nh: False
          from "1.IH" False no nh
          have "get_node_loop t d isEqual hash ((index + 1) mod size_ht t) =
             (case find_seat_loop t d isEqual hash ((index + 1) mod size_ht t) of
                Inr (Some i, t') \<Rightarrow>
                  if data (nodes t ! i) = None then Inr (None, t') else Inr (Some i, t')
              | r \<Rightarrow> r)" by simp
          moreover have "find_seat_loop t d isEqual hash index =
              find_seat_loop t d isEqual hash ((index + 1) mod size_ht t)"
            using b no nh by (rule find_seat_loop_next)
          moreover have "get_node_loop t d isEqual hash index =
              get_node_loop t d isEqual hash ((index + 1) mod size_ht t)"
            using b Some ne nh by (rule get_node_loop_next)
          ultimately show ?thesis by simp
        qed
      qed
    qed
  qed
qed

lemma get_node_loop_absent:
  "\<forall>i<size_ht t. \<forall>d'. data (nodes t ! i) = Some d' \<longrightarrow> \<not> isEqual d d' \<Longrightarrow>
   length (nodes t) = size_ht t \<Longrightarrow> hash < size_ht t \<Longrightarrow> index < size_ht t \<Longrightarrow>
   get_node_loop t d isEqual hash index = Inr (None, t)"
proof (induction t d isEqual hash index rule: get_node_loop.induct)
  case (1 t d isEqual hash index)
  from "1.prems" have b: "hash < size_ht t" "index < size_ht t" "index < length (nodes t)"
    by simp_all
  show ?case
  proof (cases "data (nodes t ! index)")
    case None
    with b show ?thesis by (simp add: get_node_loop_empty)
  next
    case (Some d')
    with "1.prems"(1) b(2) have ne: "\<not> isEqual d d'" by blast
    let ?next = "if index = size_ht t - 1 then 0 else index + 1"
    from b have nx: "?next = (index + 1) mod size_ht t" by (auto simp: mod_if)
    show ?thesis
    proof (cases "(index + 1) mod size_ht t = hash")
      case True
      with b Some ne show ?thesis by (simp add: get_node_loop_wrap)
    next
      case False
      from b have "(index + 1) mod size_ht t < size_ht t" by simp
      with "1.IH"[of d'] Some ne False nx b "1.prems"
      have "get_node_loop t d isEqual hash ((index + 1) mod size_ht t) = Inr (None, t)"
        by simp
      with b Some ne False show ?thesis by (simp add: get_node_loop_next)
    qed
  qed
qed

text \<open>
  C9. \<^verbatim>\<open>HashInTree_get_node_by_data\<close> probes the slots that \<^verbatim>\<open>HashInTree_find_seat\<close> probes for
  the same table and key, and stops where it stops: its result is that of seat-claiming,
  except that a stop at an empty slot gives \<^verbatim>\<open>NULL\<close>. Hence, when the hash lies in the table
  and no occupant of the table compares equal to the key (the key was never seated), the
  lookup returns \<^verbatim>\<open>NULL\<close>, with the table as it was.
\<close>

theorem get_node_by_data_probe:
  "HashInTree_get_node_by_data t d hashfunc isEqual =
     (case HashInTree_find_seat t d hashfunc isEqual of
        Inr (Some i, t') \<Rightarrow>
          if data (nodes t ! i) = None then Inr (None, t') else Inr (Some i, t')
      | r \<Rightarrow> r)
   \<and> (length (nodes t) = size_ht t \<and> hashfunc (size_ht t) d < size_ht t
        \<and> (\<forall>i<size_ht t. \<forall>d'. data (nodes t ! i) = Some d' \<longrightarrow> \<not> isEqual d d')
      \<longrightarrow> HashInTree_get_node_by_data t d hashfunc isEqual = Inr (None, t))"
  unfolding HashInTree_get_node_by_data_def HashInTree_find_seat_def Let_def
  using get_node_loop_find_seat_loop[of t d isEqual "hashfunc (size_ht t) d" "hashfunc (size_ht t) d"]
    get_node_loop_absent[where t = t and d = d and isEqual = isEqual
      and hash = "hashfunc (size_ht t) d" and index = "hashfunc (size_ht t) d"]
  by blast

theorem get_node_by_data_probe_witness:
  "HashInTree_get_node_by_data \<lparr>length_ht = 0, size_ht = 3,
      nodes = [\<lparr>data = Some (0::int), weight = (0::int), parent = None, heapIndex = 0\<rparr>,
               \<lparr>data = Some 1, weight = 3, parent = Some 0, heapIndex = 0\<rparr>,
               \<lparr>data = None, weight = 0, parent = None, heapIndex = 0\<rparr>]\<rparr>
      4 hashfunc_int isEqual_int
     = Inr (None, \<lparr>length_ht = 0, size_ht = 3,
      nodes = [\<lparr>data = Some (0::int), weight = (0::int), parent = None, heapIndex = 0\<rparr>,
               \<lparr>data = Some 1, weight = 3, parent = Some 0, heapIndex = 0\<rparr>,
               \<lparr>data = None, weight = 0, parent = None, heapIndex = 0\<rparr>]\<rparr>)
   \<and> HashInTree_find_seat \<lparr>length_ht = 0, size_ht = 3,
      nodes = [\<lparr>data = Some (0::int), weight = (0::int), parent = None, heapIndex = 0\<rparr>,
               \<lparr>data = Some 1, weight = 3, parent = Some 0, heapIndex = 0\<rparr>,
               \<lparr>data = None, weight = 0, parent = None, heapIndex = 0\<rparr>]\<rparr>
      4 hashfunc_int isEqual_int
     = Inr (Some 2, \<lparr>length_ht = 0, size_ht = 3,
      nodes = [\<lparr>data = Some (0::int), weight = (0::int), parent = None, heapIndex = 0\<rparr>,
               \<lparr>data = Some 1, weight = 3, parent = Some 0, heapIndex = 0\<rparr>,
               \<lparr>data = None, weight = 0, parent = None, heapIndex = 0\<rparr>]\<rparr>)
   \<and> hashfunc_int 3 4 < 3 \<and> \<not> isEqual_int 4 0 \<and> \<not> isEqual_int 4 1"
proof -
  let ?t = "\<lparr>length_ht = 0, size_ht = 3,
      nodes = [\<lparr>data = Some (0::int), weight = (0::int), parent = None, heapIndex = 0\<rparr>,
               \<lparr>data = Some 1, weight = 3, parent = Some 0, heapIndex = 0\<rparr>,
               \<lparr>data = None, weight = 0, parent = None, heapIndex = 0\<rparr>]\<rparr>"
  have h: "hashfunc_int 3 4 = 1" by (simp add: hashfunc_int_def)
  have seat: "HashInTree_find_seat ?t 4 hashfunc_int isEqual_int = Inr (Some 2, ?t)"
    by code_simp
  have absent: "\<forall>i<3. \<forall>d'. data (nodes ?t ! i) = Some d' \<longrightarrow> \<not> isEqual_int 4 d'"
    by (simp add: less_Suc_eq numeral_3_eq_3 isEqual_int_def)
  from get_node_by_data_probe[of ?t 4 hashfunc_int isEqual_int] seat h absent
  show ?thesis by (simp add: isEqual_int_def)
qed

subsection \<open>The probes leave the table as it was\<close>

lemma find_seat_loop_table:
  "find_seat_loop t d isEqual hash index = Inr (p, t') \<Longrightarrow> t' = t"
proof (induction t d isEqual hash index rule: find_seat_loop.induct)
  case (1 t d isEqual hash index)
  show ?case
  proof (cases "size_ht t \<le> hash \<or> size_ht t \<le> index \<or> length (nodes t) \<le> index")
    case True
    with "1.prems" show ?thesis by (simp add: find_seat_loop_fault)
  next
    case False
    then have b: "hash < size_ht t" "index < size_ht t" "index < length (nodes t)"
      by simp_all
    show ?thesis
    proof (cases "seat_ok isEqual d (nodes t ! index)")
      case True
      with b "1.prems" show ?thesis by (simp add: find_seat_loop_hit)
    next
      case no: False
      show ?thesis
      proof (cases "(index + 1) mod size_ht t = hash")
        case True
        with b no "1.prems" show ?thesis by (simp add: find_seat_loop_wrap)
      next
        case nh: False
        with b no "1.prems"
        have "find_seat_loop t d isEqual hash ((index + 1) mod size_ht t) = Inr (p, t')"
          by (simp add: find_seat_loop_next)
        with "1.IH" False no nh show ?thesis by simp
      qed
    qed
  qed
qed

lemma get_node_loop_table:
  "get_node_loop t d isEqual hash index = Inr (p, t') \<Longrightarrow> t' = t"
proof -
  assume g: "get_node_loop t d isEqual hash index = Inr (p, t')"
  show "t' = t"
  proof (cases "find_seat_loop t d isEqual hash index")
    case (Inl e)
    with g show ?thesis by (simp add: get_node_loop_find_seat_loop)
  next
    case (Inr r)
    obtain q u where r: "r = (q, u)" by (cases r)
    with Inr have u: "u = t" by (auto dest: find_seat_loop_table)
    from g Inr r u show ?thesis
      by (cases q) (auto simp: get_node_loop_find_seat_loop split: if_splits)
  qed
qed

lemma find_seat_loop_returns:
  "length (nodes t) = size_ht t \<Longrightarrow> hash < size_ht t \<Longrightarrow> index < size_ht t \<Longrightarrow>
   \<exists>p. find_seat_loop t d isEqual hash index = Inr (p, t)"
proof (induction t d isEqual hash index rule: find_seat_loop.induct)
  case (1 t d isEqual hash index)
  from "1.prems" have b: "hash < size_ht t" "index < size_ht t" "index < length (nodes t)"
    by simp_all
  show ?case
  proof (cases "seat_ok isEqual d (nodes t ! index)")
    case True
    with b show ?thesis by (simp add: find_seat_loop_hit)
  next
    case no: False
    show ?thesis
    proof (cases "(index + 1) mod size_ht t = hash")
      case True
      with b no show ?thesis by (simp add: find_seat_loop_wrap)
    next
      case nh: False
      from b have "(index + 1) mod size_ht t < size_ht t" by simp
      with "1.IH" no nh b "1.prems"
      have "\<exists>p. find_seat_loop t d isEqual hash ((index + 1) mod size_ht t) = Inr (p, t)"
        by simp
      with b no nh show ?thesis by (simp add: find_seat_loop_next)
    qed
  qed
qed

lemma get_node_loop_returns:
  assumes "length (nodes t) = size_ht t" and "hash < size_ht t" and "index < size_ht t"
  shows "\<exists>p. get_node_loop t d isEqual hash index = Inr (p, t)"
proof -
  from find_seat_loop_returns[OF assms, of d isEqual]
  obtain p where "find_seat_loop t d isEqual hash index = Inr (p, t)" by blast
  then show ?thesis
    by (cases p) (simp_all add: get_node_loop_find_seat_loop)
qed

lemma find_seat_loop_colliding:
  "find_seat_loop t d isEqual hash index = Inr (Some i, t') \<Longrightarrow> data (nodes t ! i) = None \<Longrightarrow>
   (\<forall>j<size_ht t. \<forall>d'. data (nodes t ! j) = Some d' \<longrightarrow> \<not> isEqual d2 d') \<Longrightarrow>
   find_seat_loop t d2 isEqual hash index = Inr (Some i, t)"
proof (induction t d isEqual hash index rule: find_seat_loop.induct)
  case (1 t d isEqual hash index)
  show ?case
  proof (cases "size_ht t \<le> hash \<or> size_ht t \<le> index \<or> length (nodes t) \<le> index")
    case True
    with "1.prems"(1) show ?thesis by (simp add: find_seat_loop_fault)
  next
    case False
    then have b: "hash < size_ht t" "index < size_ht t" "index < length (nodes t)"
      by simp_all
    show ?thesis
    proof (cases "seat_ok isEqual d (nodes t ! index)")
      case True
      with b "1.prems"(1) have "i = index" by (simp add: find_seat_loop_hit)
      with "1.prems"(2) have "seat_ok isEqual d2 (nodes t ! index)"
        by (simp add: seat_ok_def)
      with b \<open>i = index\<close> show ?thesis by (simp add: find_seat_loop_hit)
    next
      case no: False
      then obtain d' where occ: "data (nodes t ! index) = Some d'"
        by (auto simp: seat_ok_def split: option.splits)
      from "1.prems"(3) b(2) occ have "\<not> isEqual d2 d'" by blast
      with occ have no2: "\<not> seat_ok isEqual d2 (nodes t ! index)"
        by (simp add: seat_ok_def)
      show ?thesis
      proof (cases "(index + 1) mod size_ht t = hash")
        case True
        with b no "1.prems"(1) show ?thesis by (simp add: find_seat_loop_wrap)
      next
        case nh: False
        with b no "1.prems"(1)
        have rec: "find_seat_loop t d isEqual hash ((index + 1) mod size_ht t)
            = Inr (Some i, t')"
          by (simp add: find_seat_loop_next)
        have "find_seat_loop t d2 isEqual hash ((index + 1) mod size_ht t) = Inr (Some i, t)"
          using "1.IH" False no nh rec "1.prems"(2,3) by simp
        with b no2 nh show ?thesis by (simp add: find_seat_loop_next)
      qed
    qed
  qed
qed

text \<open>
  C10. Whenever \<^verbatim>\<open>HashInTree_find_seat\<close> or \<^verbatim>\<open>HashInTree_get_node_by_data\<close> returns, the table
  it leaves is the table it was given, for every table, key, hash function and equality
  function; on a table whose array has \<open>size\<close> slots and with a hash inside the table,
  both do return. So a seat that is claimed is not marked: when seat-claiming for a key
  returns an empty slot, that slot is still empty in the table the call leaves, a lookup
  of the same key in that table finds nothing, and seat-claiming in that table for any
  other key with the same hash that equals no occupant returns the very same slot.
\<close>

theorem probes_leave_table_unchanged:
  "(HashInTree_find_seat t d hashfunc isEqual = Inr (p, t') \<longrightarrow> t' = t)
   \<and> (HashInTree_get_node_by_data t d hashfunc isEqual = Inr (q, t'') \<longrightarrow> t'' = t)
   \<and> (length (nodes t) = size_ht t \<and> hashfunc (size_ht t) d < size_ht t \<longrightarrow>
        (\<exists>r. HashInTree_find_seat t d hashfunc isEqual = Inr (r, t))
        \<and> (\<exists>r. HashInTree_get_node_by_data t d hashfunc isEqual = Inr (r, t)))
   \<and> (HashInTree_find_seat t d hashfunc isEqual = Inr (Some i, t')
        \<and> data (nodes t ! i) = None
        \<and> hashfunc (size_ht t) dd = hashfunc (size_ht t) d
        \<and> (\<forall>j<size_ht t. \<forall>d'. data (nodes t ! j) = Some d' \<longrightarrow> \<not> isEqual dd d') \<longrightarrow>
        data (nodes t' ! i) = None
        \<and> HashInTree_find_seat t' dd hashfunc isEqual = Inr (Some i, t')
        \<and> HashInTree_get_node_by_data t' d hashfunc isEqual = Inr (None, t'))"
proof (intro conjI impI)
  assume "HashInTree_find_seat t d hashfunc isEqual = Inr (p, t')"
  then show "t' = t"
    by (auto simp: HashInTree_find_seat_def Let_def dest: find_seat_loop_table)
next
  assume "HashInTree_get_node_by_data t d hashfunc isEqual = Inr (q, t'')"
  then show "t'' = t"
    by (auto simp: HashInTree_get_node_by_data_def Let_def dest: get_node_loop_table)
next
  assume wf: "length (nodes t) = size_ht t \<and> hashfunc (size_ht t) d < size_ht t"
  then show "\<exists>r. HashInTree_find_seat t d hashfunc isEqual = Inr (r, t)"
    by (simp add: HashInTree_find_seat_def Let_def find_seat_loop_returns)
  from wf show "\<exists>r. HashInTree_get_node_by_data t d hashfunc isEqual = Inr (r, t)"
    by (simp add: HashInTree_get_node_by_data_def Let_def get_node_loop_returns)
next
  assume a: "HashInTree_find_seat t d hashfunc isEqual = Inr (Some i, t')
      \<and> data (nodes t ! i) = None
      \<and> hashfunc (size_ht t) dd = hashfunc (size_ht t) d
      \<and> (\<forall>j<size_ht t. \<forall>d'. data (nodes t ! j) = Some d' \<longrightarrow> \<not> isEqual dd d')"
  then have loop: "find_seat_loop t d isEqual (hashfunc (size_ht t) d)
      (hashfunc (size_ht t) d) = Inr (Some i, t')"
    by (simp add: HashInTree_find_seat_def Let_def)
  then have same: "t' = t" by (rule find_seat_loop_table)
  from a same show "data (nodes t' ! i) = None" by simp
  from a have e: "data (nodes t ! i) = None"
    and ab: "\<forall>j<size_ht t. \<forall>d'. data (nodes t ! j) = Some d' \<longrightarrow> \<not> isEqual dd d'"
    and h: "hashfunc (size_ht t) dd = hashfunc (size_ht t) d" by simp_all
  from find_seat_loop_colliding[OF loop e ab] h same
  show "HashInTree_find_seat t' dd hashfunc isEqual = Inr (Some i, t')"
    by (simp add: HashInTree_find_seat_def Let_def)
  from loop e same show "HashInTree_get_node_by_data t' d hashfunc isEqual = Inr (None, t')"
    by (simp add: HashInTree_get_node_by_data_def Let_def get_node_loop_find_seat_loop)
qed

theorem probes_leave_table_unchanged_witness:
  "length (nodes \<lparr>length_ht = 0, size_ht = 3,
      nodes = [\<lparr>data = Some (0::int), weight = (0::int), parent = None, heapIndex = 0\<rparr>,
               \<lparr>data = Some 1, weight = 3, parent = Some 0, heapIndex = 0\<rparr>,
               \<lparr>data = None, weight = 0, parent = None, heapIndex = 0\<rparr>]\<rparr>) = 3
   \<and> hashfunc_int 3 4 < 3
   \<and> hashfunc_int 3 7 = hashfunc_int 3 4 \<and> \<not> isEqual_int 7 0 \<and> \<not> isEqual_int 7 1
   \<and> HashInTree_find_seat \<lparr>length_ht = 0, size_ht = 3,
      nodes = [\<lparr>data = Some (0::int), weight = (0::int), parent = None, heapIndex = 0\<rparr>,
               \<lparr>data = Some 1, weight = 3, parent = Some 0, heapIndex = 0\<rparr>,
               \<lparr>data = None, weight = 0, parent = None, heapIndex = 0\<rparr>]\<rparr>
      4 hashfunc_int isEqual_int
     = Inr (Some 2, \<lparr>length_ht = 0, size_ht = 3,
      nodes = [\<lparr>data = Some (0::int), weight = (0::int), parent = None, heapIndex = 0\<rparr>,
               \<lparr>data = Some 1, weight = 3, parent = Some 0, heapIndex = 0\<rparr>,
               \<lparr>data = None, weight = 0, parent = None, heapIndex = 0\<rparr>]\<rparr>)
   \<and> HashInTree_find_seat \<lparr>length_ht = 0, size_ht = 3,
      nodes = [\<lparr>data = Some (0::int), weight = (0::int), parent = None, heapIndex = 0\<rparr>,
               \<lparr>data = Some 1, weight = 3, parent = Some 0, heapIndex = 0\<rparr>,
               \<lparr>data = None, weight = 0, parent = None, heapIndex = 0\<rparr>]\<rparr>
      7 hashfunc_int isEqual_int
     = Inr (Some 2, \<lparr>length_ht = 0, size_ht = 3,
      nodes = [\<lparr>data = Some (0::int), weight = (0::int), parent = None, heapIndex = 0\<rparr>,
               \<lparr>data = Some 1, weight = 3, parent = Some 0, heapIndex = 0\<rparr>,
               \<lparr>data = None, weight = 0, parent = None, heapIndex = 0\<rparr>]\<rparr>)
   \<and> HashInTree_get_node_by_data \<lparr>length_ht = 0, size_ht = 3,
      nodes = [\<lparr>data = Some (0::int), weight = (0::int), parent = None, heapIndex = 0\<rparr>,
               \<lparr>data = Some 1, weight = 3, parent = Some 0, heapIndex = 0\<rparr>,
               \<lparr>data = None, weight = 0, parent = None, heapIndex = 0\<rparr>]\<rparr>
      4 hashfunc_int isEqual_int
     = Inr (None, \<lparr>length_ht = 0, size_ht = 3,
      nodes = [\<lparr>data = Some (0::int), weight = (0::int), parent = None, heapIndex = 0\<rparr>,
               \<lparr>data = Some 1, weight = 3, parent = Some 0, heapIndex = 0\<rparr>,
               \<lparr>data = None, weight = 0, parent = None, heapIndex = 0\<rparr>]\<rparr>)"
proof -
  let ?t = "\<lparr>length_ht = 0, size_ht = 3,
      nodes = [\<lparr>data = Some (0::int), weight = (0::int), parent = None, heapIndex = 0\<rparr>,
               \<lparr>data = Some 1, weight = 3, parent = Some 0, heapIndex = 0\<rparr>,
               \<lparr>data = None, weight = 0, parent = None, heapIndex = 0\<rparr>]\<rparr>"
  have wf: "length (nodes ?t) = size_ht ?t \<and> hashfunc_int (size_ht ?t) 4 < size_ht ?t"
    by (simp add: hashfunc_int_def)
  have h: "hashfunc_int (size_ht ?t) 7 = hashfunc_int (size_ht ?t) 4"
    by (simp add: hashfunc_int_def)
  have ne: "\<not> isEqual_int 7 0" "\<not> isEqual_int 7 1"
    by (simp_all add: isEqual_int_def)
  have absent: "\<forall>j<size_ht ?t. \<forall>d'. data (nodes ?t ! j) = Some d' \<longrightarrow> \<not> isEqual_int 7 d'"
    by (simp add: less_Suc_eq numeral_3_eq_3 isEqual_int_def)
  note inst = probes_leave_table_unchanged[where t = ?t and d = 4 and hashfunc = hashfunc_int
      and isEqual = isEqual_int and dd = 7 and i = 2]
  from inst wf obtain r where r: "HashInTree_find_seat ?t 4 hashfunc_int isEqual_int = Inr (r, ?t)"
    by blast
  have "HashInTree_find_seat ?t 4 hashfunc_int isEqual_int = Inr (Some 2, ?t)"
    by code_simp
  with r have seat: "HashInTree_find_seat ?t 4 hashfunc_int isEqual_int = Inr (Some 2, ?t)"
    by simp
  have empty: "data (nodes ?t ! 2) = None" by simp
  from inst[where t' = ?t] seat empty h absent
  have "HashInTree_find_seat ?t 7 hashfunc_int isEqual_int = Inr (Some 2, ?t)
      \<and> HashInTree_get_node_by_data ?t 4 hashfunc_int isEqual_int = Inr (None, ?t)"
    by blast
  with seat wf h ne show ?thesis by simp
qed

subsection \<open>A source without edges\<close>

lemma bubble_up_loop_root:
  "bubble_up_loop isBetterThan this_node minheap ns 0 = bubble_up_place this_node minheap ns 0"
  by (subst bubble_up_loop.simps) simp

text \<open>
  What the run does when the two allocations fit, the hash of the source key lies in the
  table, and the \<^verbatim>\<open>heapIndex\<close> field of the source's slot happens to read \<open>0\<close> in the memory
  that \<^verbatim>\<open>malloc\<close> returned: the sift-up then starts at the root, where the source was stored.
\<close>

lemma Dijkstra_no_neighbors_run:
  fixes mem :: "nat \<Rightarrow> ('d, 'w) MinHeapNode"
  assumes n: "0 < n"
    and fit_heap: "n * 8 < 2 ^ 64"
    and fit_table: "(2 * n + 1) mod 2 ^ 64 * 32 < 2 ^ 64"
    and h: "hashfunc ((2 * n + 1) mod 2 ^ 64) sourceData < (2 * n + 1) mod 2 ^ 64"
    and z: "heapIndex (mem (hashfunc ((2 * n + 1) mod 2 ^ 64) sourceData)) = 0"
  shows "Dijkstra_1source_to_all_else mem sourceData sourceWeight n hashfunc isEqual isBetterThan
           send_no_neighbors
         = Some (Inr \<lparr>length_ht = 0, size_ht = (2 * n + 1) mod 2 ^ 64,
                   nodes = (map (\<lambda>i. (mem i)\<lparr>data := None\<rparr>) [0..<(2 * n + 1) mod 2 ^ 64])
                     [hashfunc ((2 * n + 1) mod 2 ^ 64) sourceData :=
                        (mem (hashfunc ((2 * n + 1) mod 2 ^ 64) sourceData))
                          \<lparr>data := Some sourceData, weight := sourceWeight, parent := None\<rparr>]\<rparr>)"
proof -
  define sz :: nat where "sz = (2 * n + 1) mod 2 ^ 64"
  define hs where "hs = hashfunc sz sourceData"
  define t0 :: "('d, 'w) HashInTree" where
    "t0 = \<lparr>length_ht = 0, size_ht = sz, nodes = map (\<lambda>i. (mem i)\<lparr>data := None\<rparr>) [0..<sz]\<rparr>"
  define ns1 where "ns1 = (nodes t0)[hs := (mem hs)\<lparr>data := Some sourceData,
      weight := sourceWeight, parent := None\<rparr>]"
  define mh0 where "mh0 = \<lparr>heap = replicate n (None :: ptr), size_mh = 0, capacity = n\<rparr>"
  define mh1 where "mh1 = \<lparr>heap = (replicate n None)[0 := Some hs], size_mh = 1, capacity = n\<rparr>"
  from h have hlt: "hs < sz" by (simp add: hs_def sz_def)
  from z have hz: "heapIndex (mem hs) = 0" by (simp add: hs_def sz_def)
  from fit_table have cr: "HashInTree_create sz mem = Inr t0"
    by (simp add: HashInTree_create_def t0_def sz_def)
  from fit_heap have mc: "MinHeap_create n = mh0"
    by (simp add: MinHeap_create_def mh0_def)
  have t0: "size_ht t0 = sz" "length (nodes t0) = sz" "nodes t0 ! hs = (mem hs)\<lparr>data := None\<rparr>"
    using hlt by (simp_all add: t0_def)
  have seat: "HashInTree_find_seat t0 sourceData hashfunc isEqual = Inr (Some hs, t0)"
    unfolding HashInTree_find_seat_def Let_def t0(1) hs_def[symmetric]
    using hlt t0 by (intro find_seat_loop_hit) (simp_all add: seat_ok_def)
  have wr: "write_source (nodes t0) (Some hs) sourceData sourceWeight = Inr ns1"
    using hlt t0 by (simp add: write_source_def ns1_def)
  have len1: "length ns1 = sz" and at1: "ns1 ! hs = (mem hs)\<lparr>data := Some sourceData,
      weight := sourceWeight, parent := None\<rparr>"
    using hlt t0 by (simp_all add: ns1_def)
  have same: "ns1[hs := (ns1 ! hs)\<lparr>heapIndex := 0\<rparr>] = ns1"
    using hz at1 by (simp add: list_update_same_conv len1 hlt)
  have upd: "MinHeap_update_key mh0 ns1 (Some hs) True isBetterThan = Inr (mh1, ns1)"
    using n hlt len1 at1 hz same
    by (simp add: MinHeap_update_key_def mh0_def MinHeap_bubble_up_def
        bubble_up_loop_root bubble_up_place_def ebind_def heap_set_def heap_get_def
        get_heapIndex_def set_heapIndex_def mh1_def)
  have pl1: "MinHeap_pluck_min mh1 ns1 isBetterThan = Inr (Some hs, mh0, ns1)"
    using n by (simp add: MinHeap_pluck_min_def mh1_def mh0_def ebind_def heap_get_def
        heap_set_def list_update_same_conv)
  have pl2: "MinHeap_pluck_min mh0 ns1 isBetterThan = Inr (None, mh0, ns1)"
    by (simp add: MinHeap_pluck_min_def mh0_def)
  have loop2: "Dijkstra_loop isBetterThan send_no_neighbors mh0 (t0\<lparr>nodes := ns1\<rparr>)
      = Some (Inr (t0\<lparr>nodes := ns1\<rparr>))"
    by (subst Dijkstra_loop.simps) (simp add: pl2)
  have loop1: "Dijkstra_loop isBetterThan send_no_neighbors mh1 (t0\<lparr>nodes := ns1\<rparr>)
      = Some (Inr (t0\<lparr>nodes := ns1\<rparr>))"
    by (subst Dijkstra_loop.simps) (simp add: pl1 loop2 send_no_neighbors_def)
  have "Dijkstra_1source_to_all_else mem sourceData sourceWeight n hashfunc isEqual isBetterThan
           send_no_neighbors
        = Some (Inr (t0\<lparr>nodes := ns1\<rparr>))"
    unfolding Dijkstra_1source_to_all_else_def Let_def sz_def[symmetric]
    by (simp add: cr mc seat wr upd loop1)
  then show ?thesis
    by (simp add: ns1_def t0_def hs_def sz_def)
qed

lemma Dijkstra_source_slot_zero:
  fixes mem :: "nat \<Rightarrow> ('d, 'w) MinHeapNode"
  assumes "0 < n"
    and "n * 8 < 2 ^ 64"
    and "(2 * n + 1) mod 2 ^ 64 * 32 < 2 ^ 64"
    and "hashfunc ((2 * n + 1) mod 2 ^ 64) sourceData < (2 * n + 1) mod 2 ^ 64"
    and "heapIndex (mem (hashfunc ((2 * n + 1) mod 2 ^ 64) sourceData)) = 0"
  shows "\<exists>r. Dijkstra_1source_to_all_else mem sourceData sourceWeight n hashfunc isEqual
                isBetterThan send_no_neighbors = Some (Inr r)
           \<and> size_ht r = (2 * n + 1) mod 2 ^ 64
           \<and> length (nodes r) = (2 * n + 1) mod 2 ^ 64
           \<and> (\<forall>i<(2 * n + 1) mod 2 ^ 64.
                 (data (nodes r ! i) \<noteq> None) = (i = hashfunc ((2 * n + 1) mod 2 ^ 64) sourceData))
           \<and> data (nodes r ! hashfunc ((2 * n + 1) mod 2 ^ 64) sourceData) = Some sourceData
           \<and> weight (nodes r ! hashfunc ((2 * n + 1) mod 2 ^ 64) sourceData) = sourceWeight
           \<and> parent (nodes r ! hashfunc ((2 * n + 1) mod 2 ^ 64) sourceData) = None"
proof -
  note run = Dijkstra_no_neighbors_run[where n = n and hashfunc = hashfunc
      and sourceData = sourceData and mem = mem, OF assms]
  from assms(4) show ?thesis
    by (simp add: run nth_list_update)
qed

text \<open>
  The capacity of the heap is the declared number of nodes: with
  \<^verbatim>\<open>total_number_of_nodes = 0\<close> the heap has no room for the source, and the run ends in
  \<^verbatim>\<open>exit(2)\<close>.
\<close>

lemma Dijkstra_zero_nodes_exits:
  "Dijkstra_1source_to_all_else zeroed_memory 0 0 0 hashfunc_int isEqual_int isBetterThan_int
     send_no_neighbors = Some (Inl (Exit 2))"
proof -
  let ?t = "\<lparr>length_ht = 0, size_ht = Suc 0, nodes = [(zeroed_memory 0)\<lparr>data := None\<rparr>]\<rparr>"
  have cr: "HashInTree_create (Suc 0) zeroed_memory = Inr ?t"
    by (simp add: HashInTree_create_def)
  have seat: "HashInTree_find_seat ?t 0 hashfunc_int isEqual_int = Inr (Some 0, ?t)"
    by (simp add: HashInTree_find_seat_def hashfunc_int_def find_seat_loop_hit seat_ok_def)
  have wr: "write_source [(zeroed_memory 0)\<lparr>data := None\<rparr>] (Some 0) (0::int)
      (0::int) = Inr [\<lparr>data = Some 0, weight = 0, parent = None, heapIndex = 0\<rparr>]"
    by (simp add: write_source_def zeroed_memory_def)
  have full: "size_mh (MinHeap_create 0) = capacity (MinHeap_create 0)"
    by (simp add: MinHeap_create_def)
  show ?thesis
    by (simp add: Dijkstra_1source_to_all_else_def cr seat wr MinHeap_update_key_def ebind_def
        full)
qed

text \<open>
  An allocation that does not fit ends the run in a fault: with \<open>2\<^sup>6\<^sup>1\<close> declared nodes
  \<^verbatim>\<open>calloc\<close> returns \<^verbatim>\<open>NULL\<close> for the heap's array, and the store of the source goes through it.
\<close>

lemma MinHeap_create_too_large:
  "MinHeap_create (2 ^ 61) = \<lparr>heap = [], size_mh = 0, capacity = 2 ^ 61\<rparr>"
  by (simp add: MinHeap_create_def)

lemma HashInTree_create_too_large:
  "HashInTree_create (2 ^ 59) mem = Inl Fault"
  by (simp add: HashInTree_create_def)

text \<open>
  C3. The claim is what the engine is meant to do, and the code does not do it: the run
  on a source without edges depends on what the source's slot held when the table was
  allocated, because \<^verbatim>\<open>MinHeap_update_key\<close> stores a new node at the end of the heap and then
  sifts up from the node's \<^verbatim>\<open>heapIndex\<close> field, which nothing has written. With three
  declared nodes, source key \<open>0\<close> of weight \<open>0\<close>, the callbacks of the sample program and a
  callback that sends no neighbour: in memory whose \<^verbatim>\<open>heapIndex\<close> fields read \<open>2\<close>, the
  sift-up of the source starts at slot \<open>2\<close> of the heap, which holds \<^verbatim>\<open>NULL\<close>, and dereferences
  it, so no table is returned; in zeroed memory the same run returns the seven-slot table
  whose only occupied record is the source with weight \<open>0\<close> and no parent.
\<close>

theorem Dijkstra_stale_heapIndex_faults:
  "Dijkstra_1source_to_all_else
     (\<lambda>i. \<lparr>data = None, weight = 0, parent = None, heapIndex = 2\<rparr>)
     0 0 3 hashfunc_int isEqual_int isBetterThan_int send_no_neighbors = Some (Inl Fault)
   \<and> Dijkstra_1source_to_all_else zeroed_memory
     0 0 3 hashfunc_int isEqual_int isBetterThan_int send_no_neighbors
     = Some (Inr \<lparr>length_ht = 0, size_ht = 7,
          nodes = [\<lparr>data = Some 0, weight = 0, parent = None, heapIndex = 0\<rparr>,
                   \<lparr>data = None, weight = 0, parent = None, heapIndex = 0\<rparr>,
                   \<lparr>data = None, weight = 0, parent = None, heapIndex = 0\<rparr>,
                   \<lparr>data = None, weight = 0, parent = None, heapIndex = 0\<rparr>,
                   \<lparr>data = None, weight = 0, parent = None, heapIndex = 0\<rparr>,
                   \<lparr>data = None, weight = 0, parent = None, heapIndex = 0\<rparr>,
                   \<lparr>data = None, weight = 0, parent = None, heapIndex = 0\<rparr>]\<rparr>)"
proof
  let ?n = "\<lparr>data = None :: int option, weight = 0 :: int, parent = None, heapIndex = 2\<rparr>"
  let ?t = "\<lparr>length_ht = 0, size_ht = 7, nodes = [?n, ?n, ?n, ?n, ?n, ?n, ?n]\<rparr>"
  let ?ns = "[\<lparr>data = Some (0::int), weight = 0 :: int, parent = None, heapIndex = 2\<rparr>,
      ?n, ?n, ?n, ?n, ?n, ?n]"
  have sz: "(2 * 3 + 1) mod 2 ^ 64 = (7::nat)" by simp
  have t: "HashInTree_create 7 (\<lambda>i. ?n) = Inr ?t"
    by (simp add: HashInTree_create_def upt_rec)
  have seat: "HashInTree_find_seat ?t 0 hashfunc_int isEqual_int = Inr (Some 0, ?t)"
    by (simp add: HashInTree_find_seat_def hashfunc_int_def find_seat_loop_hit seat_ok_def)
  have wr: "write_source (nodes ?t) (Some 0) 0 0 = Inr ?ns"
    by (simp add: write_source_def)
  have loop: "bubble_up_loop isBetterThan_int None
      \<lparr>heap = [Some 0, None, None], size_mh = 1, capacity = 3\<rparr> ?ns 2 = Inl Fault"
    by (subst bubble_up_loop.simps) (simp add: ebind_def get_weight_def)
  have up: "MinHeap_update_key (MinHeap_create 3) ?ns (Some 0) True isBetterThan_int
      = Inl Fault"
    using loop
    by (simp add: MinHeap_update_key_def MinHeap_create_def MinHeap_bubble_up_def ebind_def
        heap_set_def heap_get_def get_heapIndex_def numeral_3_eq_3)
  have "Dijkstra_1source_to_all_else (\<lambda>i. ?n) 0 0 3 hashfunc_int isEqual_int
      isBetterThan_int send_no_neighbors
      = (case HashInTree_find_seat ?t 0 hashfunc_int isEqual_int of
           Inl e \<Rightarrow> Some (Inl e)
         | Inr (sourcenode, hashintree) \<Rightarrow>
             (case write_source (nodes hashintree) sourcenode 0 0 of
                Inl e \<Rightarrow> Some (Inl e)
              | Inr ns \<Rightarrow>
                  (case MinHeap_update_key (MinHeap_create 3) ns sourcenode True
                          isBetterThan_int of
                     Inl e \<Rightarrow> Some (Inl e)
                   | Inr (minheap', ns') \<Rightarrow>
                       Dijkstra_loop isBetterThan_int send_no_neighbors minheap'
                         (hashintree\<lparr>nodes := ns'\<rparr>))))"
    unfolding Dijkstra_1source_to_all_else_def Let_def sz t sum.case ..
  also have "\<dots> = Some (Inl Fault)"
    by (simp only: seat wr up sum.case prod.case)
  finally show "Dijkstra_1source_to_all_else (\<lambda>i. ?n) 0 0 3 hashfunc_int isEqual_int
      isBetterThan_int send_no_neighbors = Some (Inl Fault)" .
next
  have sz: "(2 * 3 + 1) mod 2 ^ 64 = (7::nat)" by simp
  have h: "hashfunc_int 7 0 = 0" by (simp add: hashfunc_int_def)
  have z: "heapIndex (zeroed_memory 0) = 0" by (simp add: zeroed_memory_def)
  have "Dijkstra_1source_to_all_else zeroed_memory 0 0 3 hashfunc_int isEqual_int
      isBetterThan_int send_no_neighbors
      = Some (Inr \<lparr>length_ht = 0, size_ht = 7,
          nodes = (map (\<lambda>i. (zeroed_memory i)\<lparr>data := None\<rparr>) [0..<7])
            [0 := (zeroed_memory 0)\<lparr>data := Some 0, weight := 0, parent := None\<rparr>]\<rparr>)"
    using Dijkstra_no_neighbors_run[where n = 3 and hashfunc = hashfunc_int
      and sourceData = 0 and mem = zeroed_memory and sourceWeight = 0
      and isEqual = isEqual_int and isBetterThan = isBetterThan_int] sz h z
    by simp
  then show "Dijkstra_1source_to_all_else zeroed_memory
     0 0 3 hashfunc_int isEqual_int isBetterThan_int send_no_neighbors
     = Some (Inr \<lparr>length_ht = 0, size_ht = 7,
          nodes = [\<lparr>data = Some 0, weight = 0, parent = None, heapIndex = 0\<rparr>,
                   \<lparr>data = None, weight = 0, parent = None, heapIndex = 0\<rparr>,
                   \<lparr>data = None, weight = 0, parent = None, heapIndex = 0\<rparr>,
                   \<lparr>data = None, weight = 0, parent = None, heapIndex = 0\<rparr>,
                   \<lparr>data = None, weight = 0, parent = None, heapIndex = 0\<rparr>,
                   \<lparr>data = None, weight = 0, parent = None, heapIndex = 0\<rparr>,
                   \<lparr>data = None, weight = 0, parent = None, heapIndex = 0\<rparr>]\<rparr>)"
    by (simp add: zeroed_memory_def upt_rec)
qed

subsection \<open>The sift-down of the extraction\<close>

lemma get_weight_update_heapIndex [simp]:
  "get_weight (ns[a := (ns ! a)\<lparr>heapIndex := v\<rparr>]) p = get_weight ns p"
  by (cases "a < length ns") (auto simp: get_weight_def nth_list_update split: option.splits)

lemma smaller_child_frame:
  assumes "l \<noteq> i" "r \<noteq> i"
  shows "smaller_child isBetterThan (minheap\<lparr>heap := (heap minheap)[i := p]\<rparr>)
           (ns[a := (ns ! a)\<lparr>heapIndex := v\<rparr>]) l r
         = smaller_child isBetterThan minheap ns l r"
  using assms by (simp add: smaller_child_def heap_get_def)

lemma heapIndex_updates_collapse:
  assumes "a < length ns" "b < length ns"
  shows "(let ns0 = ns[a := (ns ! a)\<lparr>heapIndex := i\<rparr>];
              ns1 = ns0[b := (ns0 ! b)\<lparr>heapIndex := i\<rparr>]
          in ns1[a := (ns1 ! a)\<lparr>heapIndex := c\<rparr>])
       = (let ns1 = ns[b := (ns ! b)\<lparr>heapIndex := i\<rparr>]
          in ns1[a := (ns1 ! a)\<lparr>heapIndex := c\<rparr>])"
  using assms by (cases "a = b") (simp_all add: Let_def list_update_swap)

text \<open>
  The loop of the source keeps the replacement in a local variable and writes it only once,
  after the loop. With the replacement written into the slot the loop stands at, the result
  is that of the sequence of swaps.
\<close>

lemma pluck_min_loop_swaps:
  "i < length (heap minheap) \<Longrightarrow> a < length ns \<Longrightarrow>
   pluck_min_loop isBetterThan (Some a) minheap ns i =
     sift_down_swaps isBetterThan (minheap\<lparr>heap := (heap minheap)[i := Some a]\<rparr>)
       (ns[a := (ns ! a)\<lparr>heapIndex := i\<rparr>]) i"
proof (induction isBetterThan "Some a :: ptr" minheap ns i rule: pluck_min_loop.induct)
  case (1 isBetterThan minheap ns i)
  let ?H = "heap minheap"
  let ?l = "left_child_index i" and ?r = "right_child_index i"
  let ?m' = "minheap\<lparr>heap := ?H[i := Some a]\<rparr>"
  let ?ns' = "ns[a := (ns ! a)\<lparr>heapIndex := i\<rparr>]"
  have place: "pluck_min_place (Some a) minheap ns i = Inr (?m', ?ns')"
    using "1.prems" by (simp add: pluck_min_place_def ebind_def heap_set_def set_heapIndex_def)
  show ?case
  proof (cases "?l < size_mh minheap")
    case False
    then show ?thesis
      by (subst pluck_min_loop.simps, subst sift_down_swaps.simps) (simp add: place)
  next
    case True
    have lr: "?l \<noteq> i" "?r \<noteq> i"
      by (simp_all add: left_child_index_def right_child_index_def)
    have sc: "smaller_child isBetterThan ?m' ?ns' ?l ?r = smaller_child isBetterThan minheap ns ?l ?r"
      using lr by (rule smaller_child_frame)
    show ?thesis
    proof (cases "smaller_child isBetterThan minheap ns ?l ?r")
      case (Inl e)
      with True sc show ?thesis
        by (subst pluck_min_loop.simps, subst sift_down_swaps.simps) (simp add: ebind_def)
    next
      case (Inr c)
      then have "c = ?l \<or> c = ?r" by (auto dest: smaller_child_range)
      with lr have ci: "c \<noteq> i" by auto
      have wa: "get_weight ns (Some a) = Inr (weight (ns ! a))"
        using "1.prems" by (simp add: get_weight_def)
      have gi: "heap_get (?H[i := Some a]) i = Inr (Some a)"
        using "1.prems" by (simp add: heap_get_def)
      have gc: "heap_get (?H[i := Some a]) c = heap_get ?H c"
        using ci by (simp add: heap_get_def)
      show ?thesis
      proof (cases "heap_get ?H c")
        case e: (Inl e)
        with True sc Inr gc show ?thesis
          by (subst pluck_min_loop.simps, subst sift_down_swaps.simps) (simp add: ebind_def)
      next
        case sp: (Inr sp)
        then have clen: "c < length ?H" by (simp add: heap_get_def split: if_splits)
        from sp have spc: "sp = ?H ! c" by (simp add: heap_get_def split: if_splits)
        show ?thesis
        proof (cases "get_weight ns sp")
          case e: (Inl e)
          with True sc Inr gc sp show ?thesis
            by (subst pluck_min_loop.simps, subst sift_down_swaps.simps) (simp add: ebind_def)
        next
          case sw: (Inr sw)
          then obtain b where b: "sp = Some b" "b < length ns" "sw = weight (ns ! b)"
            by (auto simp: get_weight_def split: option.splits if_splits)
          show ?thesis
          proof (cases "isBetterThan sw (weight (ns ! a))")
            case False
            with True sc Inr gc sp sw wa gi show ?thesis
              by (subst pluck_min_loop.simps, subst sift_down_swaps.simps)
                 (simp add: ebind_def place)
          next
            case better: True
            let ?ns1 = "ns[b := (ns ! b)\<lparr>heapIndex := i\<rparr>]"
            have s1: "set_heapIndex ns sp i = Inr ?ns1"
              using b by (simp add: set_heapIndex_def)
            have h1: "heap_set ?H i sp = Inr (?H[i := sp])"
              using "1.prems" by (simp add: heap_set_def)
            have IH: "pluck_min_loop isBetterThan (Some a) (minheap\<lparr>heap := ?H[i := sp]\<rparr>) ?ns1 c
                = sift_down_swaps isBetterThan
                    (minheap\<lparr>heap := ?H[i := sp, c := Some a]\<rparr>)
                    (?ns1[a := (?ns1 ! a)\<lparr>heapIndex := c\<rparr>]) c"
              using "1.hyps"[OF True Inr sp sw wa _ s1 h1] better clen "1.prems" by simp
            have lhs: "pluck_min_loop isBetterThan (Some a) minheap ns i
                = pluck_min_loop isBetterThan (Some a) (minheap\<lparr>heap := ?H[i := sp]\<rparr>) ?ns1 c"
              using True Inr sp sw wa better s1 h1
              by (subst pluck_min_loop.simps) (simp add: ebind_def)
            have sw': "swap_slots ?m' ?ns' i c
                = Inr (minheap\<lparr>heap := ?H[i := sp, c := Some a]\<rparr>,
                       ?ns1[a := (?ns1 ! a)\<lparr>heapIndex := c\<rparr>])"
              using "1.prems" clen ci b spc
                heapIndex_updates_collapse[of a ns b i c]
              by (simp add: swap_slots_def ebind_def heap_get_def heap_set_def
                  set_heapIndex_def Let_def)
            have rhs: "sift_down_swaps isBetterThan ?m' ?ns' i
                = sift_down_swaps isBetterThan
                    (minheap\<lparr>heap := ?H[i := sp, c := Some a]\<rparr>)
                    (?ns1[a := (?ns1 ! a)\<lparr>heapIndex := c\<rparr>]) c"
              using True sc Inr gc sp sw wa gi better sw'
              by (subst sift_down_swaps.simps) (simp add: ebind_def)
            show ?thesis by (simp only: lhs rhs IH)
          qed
        qed
      qed
    qed
  qed
qed

lemma pluck_min_loop_size:
  "pluck_min_loop isBetterThan curr_node minheap ns i = Inr (minheap', ns') \<Longrightarrow>
   size_mh minheap' = size_mh minheap"
proof (induction isBetterThan curr_node minheap ns i rule: pluck_min_loop.induct)
  case (1 isBetterThan curr_node minheap ns i)
  from "1.prems" show ?case
    by (subst (asm) pluck_min_loop.simps)
       (auto simp: ebind_def pluck_min_place_def split: if_splits sum.splits dest: "1.IH")
qed

text \<open>
  On a heap of more than one node, whose last slot holds a valid node pointer, the
  extraction is: clear the last slot, put the last node into the root slot, decrement the
  size, sift down by swaps from the root, return the former root.
\<close>

lemma pluck_min_by_swaps:
  assumes "1 < size_mh minheap" and "size_mh minheap \<le> length (heap minheap)"
    and "heap minheap ! (size_mh minheap - 1) = Some a" and "a < length ns"
  shows "MinHeap_pluck_min minheap ns isBetterThan =
      ebind (sift_down_swaps isBetterThan
               (minheap\<lparr>heap := (heap minheap)[size_mh minheap - 1 := None, 0 := Some a],
                        size_mh := size_mh minheap - 1\<rparr>)
               (ns[a := (ns ! a)\<lparr>heapIndex := 0\<rparr>]) 0)
        (\<lambda>(minheap', ns'). Inr (heap minheap ! 0, minheap', ns'))"
proof -
  let ?m = "minheap\<lparr>heap := (heap minheap)[size_mh minheap - 1 := None],
      size_mh := size_mh minheap - 1\<rparr>"
  let ?m2 = "minheap\<lparr>heap := (heap minheap)[size_mh minheap - 1 := None, 0 := Some a],
      size_mh := size_mh minheap - 1\<rparr>"
  from assms have len: "0 < length (heap minheap)" "size_mh minheap - 1 < length (heap minheap)"
    and nz: "size_mh minheap \<noteq> 0" "size_mh minheap - 1 \<noteq> 0"
    by linarith+
  have eqm: "?m\<lparr>heap := (heap ?m)[0 := Some a]\<rparr> = ?m2" by simp
  from assms len have "pluck_min_loop isBetterThan (Some a) ?m ns 0 =
      sift_down_swaps isBetterThan (?m\<lparr>heap := (heap ?m)[0 := Some a]\<rparr>)
        (ns[a := (ns ! a)\<lparr>heapIndex := 0\<rparr>]) 0"
    by (intro pluck_min_loop_swaps) simp_all
  then have loop: "pluck_min_loop isBetterThan (Some a) ?m ns 0 =
      sift_down_swaps isBetterThan ?m2 (ns[a := (ns ! a)\<lparr>heapIndex := 0\<rparr>]) 0"
    by (simp only: eqm)
  have "MinHeap_pluck_min minheap ns isBetterThan =
      ebind (pluck_min_loop isBetterThan (Some a) ?m ns 0)
        (\<lambda>(minheap', ns'). Inr (heap minheap ! 0, minheap', ns'))"
    using assms len nz by (simp add: MinHeap_pluck_min_def ebind_def heap_get_def heap_set_def)
  then show ?thesis
    by (simp only: loop)
qed

text \<open>
  C6. \<^verbatim>\<open>MinHeap_pluck_min\<close> on an empty heap returns \<^verbatim>\<open>NULL\<close> and changes nothing. On a heap
  of one node it returns the root, clears the slot and sets the size to \<open>0\<close>, without a
  sift-down: the node records are not written. On a larger heap it returns the former
  root, and the heap and the records it leaves are those of: clear the last slot, put the
  last node into the root slot (with \<^verbatim>\<open>heapIndex\<close> \<open>0\<close>), decrement the size, sift down
  from the root by swaps. Whenever the call returns on a non-empty heap, what it returns is
  the former root, and the size is one less.
\<close>

theorem pluck_min_extract:
  "(size_mh minheap = 0 \<longrightarrow>
      MinHeap_pluck_min minheap ns isBetterThan = Inr (None, minheap, ns))
   \<and> (size_mh minheap = 1 \<and> 0 < length (heap minheap) \<longrightarrow>
      MinHeap_pluck_min minheap ns isBetterThan =
        Inr (heap minheap ! 0, minheap\<lparr>heap := (heap minheap)[0 := None], size_mh := 0\<rparr>, ns))
   \<and> (1 < size_mh minheap \<and> size_mh minheap \<le> length (heap minheap)
        \<and> heap minheap ! (size_mh minheap - 1) = Some a \<and> a < length ns \<longrightarrow>
      MinHeap_pluck_min minheap ns isBetterThan =
        ebind (sift_down_swaps isBetterThan
                 (minheap\<lparr>heap := (heap minheap)[size_mh minheap - 1 := None, 0 := Some a],
                          size_mh := size_mh minheap - 1\<rparr>)
                 (ns[a := (ns ! a)\<lparr>heapIndex := 0\<rparr>]) 0)
          (\<lambda>(minheap', ns'). Inr (heap minheap ! 0, minheap', ns')))
   \<and> (0 < size_mh minheap \<and> MinHeap_pluck_min minheap ns isBetterThan = Inr (p, minheap', ns')
        \<longrightarrow> p = heap minheap ! 0 \<and> size_mh minheap' = size_mh minheap - 1)"
proof (intro conjI impI)
  assume "size_mh minheap = 0"
  then show "MinHeap_pluck_min minheap ns isBetterThan = Inr (None, minheap, ns)"
    by (simp add: MinHeap_pluck_min_def)
next
  assume "size_mh minheap = 1 \<and> 0 < length (heap minheap)"
  then show "MinHeap_pluck_min minheap ns isBetterThan =
      Inr (heap minheap ! 0, minheap\<lparr>heap := (heap minheap)[0 := None], size_mh := 0\<rparr>, ns)"
    by (simp add: MinHeap_pluck_min_def ebind_def heap_get_def heap_set_def)
next
  assume a: "1 < size_mh minheap \<and> size_mh minheap \<le> length (heap minheap)
      \<and> heap minheap ! (size_mh minheap - 1) = Some a \<and> a < length ns"
  then show "MinHeap_pluck_min minheap ns isBetterThan =
      ebind (sift_down_swaps isBetterThan
               (minheap\<lparr>heap := (heap minheap)[size_mh minheap - 1 := None, 0 := Some a],
                        size_mh := size_mh minheap - 1\<rparr>)
               (ns[a := (ns ! a)\<lparr>heapIndex := 0\<rparr>]) 0)
        (\<lambda>(minheap', ns'). Inr (heap minheap ! 0, minheap', ns'))"
    by (intro pluck_min_by_swaps) simp_all
next
  assume a: "0 < size_mh minheap
      \<and> MinHeap_pluck_min minheap ns isBetterThan = Inr (p, minheap', ns')"
  then show "p = heap minheap ! 0"
    by (auto simp: MinHeap_pluck_min_def ebind_def heap_get_def split: if_splits sum.splits)
  from a show "size_mh minheap' = size_mh minheap - 1"
    by (auto simp: MinHeap_pluck_min_def ebind_def heap_get_def heap_set_def
        split: if_splits sum.splits dest!: pluck_min_loop_size)
qed

theorem pluck_min_extract_witness:
  "MinHeap_pluck_min \<lparr>heap = [None], size_mh = 0, capacity = 1\<rparr> sample_nodes isBetterThan_int
     = Inr (None, \<lparr>heap = [None], size_mh = 0, capacity = 1\<rparr>, sample_nodes)
   \<and> MinHeap_pluck_min \<lparr>heap = [Some 2], size_mh = 1, capacity = 1\<rparr> sample_nodes
       isBetterThan_int
     = Inr (Some 2, \<lparr>heap = [None], size_mh = 0, capacity = 1\<rparr>, sample_nodes)
   \<and> 1 < size_mh sample_heap \<and> size_mh sample_heap \<le> length (heap sample_heap)
   \<and> heap sample_heap ! (size_mh sample_heap - 1) = Some 3 \<and> 3 < length sample_nodes
   \<and> MinHeap_pluck_min sample_heap sample_nodes isBetterThan_int
     = ebind (sift_down_swaps isBetterThan_int
                \<lparr>heap = [Some 3, Some 1, Some 2, None], size_mh = 3, capacity = 4\<rparr>
                (sample_nodes[3 := (sample_nodes ! 3)\<lparr>heapIndex := 0\<rparr>]) 0)
         (\<lambda>(minheap', ns'). Inr (Some 0, minheap', ns'))
   \<and> MinHeap_pluck_min sample_heap sample_nodes isBetterThan_int
     = Inr (Some 0, \<lparr>heap = [Some 2, Some 1, Some 3, None], size_mh = 3, capacity = 4\<rparr>,
         [\<lparr>data = Some 10, weight = 1, parent = None, heapIndex = 0\<rparr>,
          \<lparr>data = Some 11, weight = 3, parent = Some 0, heapIndex = 1\<rparr>,
          \<lparr>data = Some 12, weight = 2, parent = Some 0, heapIndex = 0\<rparr>,
          \<lparr>data = Some 13, weight = 5, parent = Some 1, heapIndex = 2\<rparr>,
          \<lparr>data = Some 14, weight = 3, parent = Some 2, heapIndex = 0\<rparr>])"
proof -
  have e: "MinHeap_pluck_min \<lparr>heap = [None], size_mh = 0, capacity = 1\<rparr> sample_nodes
      isBetterThan_int = Inr (None, \<lparr>heap = [None], size_mh = 0, capacity = 1\<rparr>, sample_nodes)"
    using pluck_min_extract[where minheap = "\<lparr>heap = [None], size_mh = 0, capacity = 1\<rparr>"
        and ns = sample_nodes and isBetterThan = isBetterThan_int]
    by simp
  have s: "MinHeap_pluck_min \<lparr>heap = [Some 2], size_mh = 1, capacity = 1\<rparr> sample_nodes
      isBetterThan_int = Inr (Some 2, \<lparr>heap = [None], size_mh = 0, capacity = 1\<rparr>, sample_nodes)"
    using pluck_min_extract[where minheap = "\<lparr>heap = [Some 2], size_mh = 1, capacity = 1\<rparr>"
        and ns = sample_nodes and isBetterThan = isBetterThan_int]
    by simp
  have h: "1 < size_mh sample_heap \<and> size_mh sample_heap \<le> length (heap sample_heap)
      \<and> heap sample_heap ! (size_mh sample_heap - 1) = Some 3 \<and> 3 < length sample_nodes"
    by (simp add: sample_heap_def sample_nodes_def)
  have t: "MinHeap_pluck_min sample_heap sample_nodes isBetterThan_int
     = ebind (sift_down_swaps isBetterThan_int
                \<lparr>heap = [Some 3, Some 1, Some 2, None], size_mh = 3, capacity = 4\<rparr>
                (sample_nodes[3 := (sample_nodes ! 3)\<lparr>heapIndex := 0\<rparr>]) 0)
         (\<lambda>(minheap', ns'). Inr (Some 0, minheap', ns'))"
    using pluck_min_extract[where minheap = sample_heap and ns = sample_nodes and a = 3
        and isBetterThan = isBetterThan_int] h
    by (simp add: sample_heap_def)
  have v: "MinHeap_pluck_min sample_heap sample_nodes isBetterThan_int
     = Inr (Some 0, \<lparr>heap = [Some 2, Some 1, Some 3, None], size_mh = 3, capacity = 4\<rparr>,
         [\<lparr>data = Some 10, weight = 1, parent = None, heapIndex = 0\<rparr>,
          \<lparr>data = Some 11, weight = 3, parent = Some 0, heapIndex = 1\<rparr>,
          \<lparr>data = Some 12, weight = 2, parent = Some 0, heapIndex = 0\<rparr>,
          \<lparr>data = Some 13, weight = 5, parent = Some 1, heapIndex = 2\<rparr>,
          \<lparr>data = Some 14, weight = 3, parent = Some 2, heapIndex = 0\<rparr>])"
    by code_simp
  from e s h t v show ?thesis by blast
qed

text \<open>
  C7. In the sift-down of \<^verbatim>\<open>MinHeap_pluck_min\<close> the child chosen at a level is the left one
  when there is no right child, and otherwise the right one exactly when its weight is
  better than the left one's: on equal weights, and on any other failure of that test, the
  left child is taken. The loop as a whole gives the heap and the node records of the
  sift-down by swaps: at each level the node in the slot is exchanged with the chosen child
  while the child's weight is better than its own, and each exchange writes the
  \<^verbatim>\<open>heapIndex\<close> of both nodes.
\<close>

theorem pluck_min_sift_down_by_levels:
  "(\<not> right_child_index i < size_mh minheap \<longrightarrow>
      smaller_child isBetterThan minheap ns (left_child_index i) (right_child_index i)
        = Inr (left_child_index i))
   \<and> (right_child_index i < size_mh minheap \<and> size_mh minheap \<le> length (heap minheap)
        \<and> heap minheap ! left_child_index i = Some x \<and> x < length ns
        \<and> heap minheap ! right_child_index i = Some y \<and> y < length ns \<longrightarrow>
      smaller_child isBetterThan minheap ns (left_child_index i) (right_child_index i)
        = Inr (if isBetterThan (weight (ns ! y)) (weight (ns ! x))
               then right_child_index i else left_child_index i))
   \<and> (i < length (heap minheap) \<and> a < length ns \<longrightarrow>
      pluck_min_loop isBetterThan (Some a) minheap ns i =
        sift_down_swaps isBetterThan (minheap\<lparr>heap := (heap minheap)[i := Some a]\<rparr>)
          (ns[a := (ns ! a)\<lparr>heapIndex := i\<rparr>]) i)"
proof (intro conjI impI)
  assume "\<not> right_child_index i < size_mh minheap"
  then show "smaller_child isBetterThan minheap ns (left_child_index i) (right_child_index i)
      = Inr (left_child_index i)"
    by (simp add: smaller_child_def)
next
  assume a: "right_child_index i < size_mh minheap \<and> size_mh minheap \<le> length (heap minheap)
      \<and> heap minheap ! left_child_index i = Some x \<and> x < length ns
      \<and> heap minheap ! right_child_index i = Some y \<and> y < length ns"
  then have "left_child_index i < length (heap minheap)"
    "right_child_index i < length (heap minheap)"
    by (simp_all add: left_child_index_def right_child_index_def)
  with a show "smaller_child isBetterThan minheap ns (left_child_index i) (right_child_index i)
      = Inr (if isBetterThan (weight (ns ! y)) (weight (ns ! x))
             then right_child_index i else left_child_index i)"
    by (simp add: smaller_child_def ebind_def heap_get_def get_weight_def)
next
  assume "i < length (heap minheap) \<and> a < length ns"
  then show "pluck_min_loop isBetterThan (Some a) minheap ns i =
      sift_down_swaps isBetterThan (minheap\<lparr>heap := (heap minheap)[i := Some a]\<rparr>)
        (ns[a := (ns ! a)\<lparr>heapIndex := i\<rparr>]) i"
    by (simp add: pluck_min_loop_swaps)
qed

theorem pluck_min_sift_down_by_levels_witness:
  "smaller_child isBetterThan_int
       \<lparr>heap = [None, Some 1, None, None], size_mh = 2, capacity = 4\<rparr> sample_nodes
       (left_child_index 0) (right_child_index 0) = Inr 1
   \<and> smaller_child isBetterThan_int
       \<lparr>heap = [None, Some 1, Some 2, None], size_mh = 3, capacity = 4\<rparr> sample_nodes
       (left_child_index 0) (right_child_index 0) = Inr 2
   \<and> smaller_child isBetterThan_int
       \<lparr>heap = [None, Some 1, Some 4, None], size_mh = 3, capacity = 4\<rparr> sample_nodes
       (left_child_index 0) (right_child_index 0) = Inr 1
   \<and> pluck_min_loop isBetterThan_int (Some 3)
       \<lparr>heap = [None, Some 1, Some 2, None], size_mh = 3, capacity = 4\<rparr> sample_nodes 0
     = sift_down_swaps isBetterThan_int
         \<lparr>heap = [Some 3, Some 1, Some 2, None], size_mh = 3, capacity = 4\<rparr>
         (sample_nodes[3 := (sample_nodes ! 3)\<lparr>heapIndex := 0\<rparr>]) 0
   \<and> sift_down_swaps isBetterThan_int
         \<lparr>heap = [Some 3, Some 1, Some 2, None], size_mh = 3, capacity = 4\<rparr>
         (sample_nodes[3 := (sample_nodes ! 3)\<lparr>heapIndex := 0\<rparr>]) 0
     = Inr (\<lparr>heap = [Some 2, Some 1, Some 3, None], size_mh = 3, capacity = 4\<rparr>,
         [\<lparr>data = Some 10, weight = 1, parent = None, heapIndex = 0\<rparr>,
          \<lparr>data = Some 11, weight = 3, parent = Some 0, heapIndex = 1\<rparr>,
          \<lparr>data = Some 12, weight = 2, parent = Some 0, heapIndex = 0\<rparr>,
          \<lparr>data = Some 13, weight = 5, parent = Some 1, heapIndex = 2\<rparr>,
          \<lparr>data = Some 14, weight = 3, parent = Some 2, heapIndex = 0\<rparr>])"
proof -
  have lr: "left_child_index 0 = 1" "right_child_index 0 = 2"
    by (simp_all add: left_child_index_def right_child_index_def)
  have one: "smaller_child isBetterThan_int
       \<lparr>heap = [None, Some 1, None, None], size_mh = 2, capacity = 4\<rparr> sample_nodes
       (left_child_index 0) (right_child_index 0) = Inr 1"
    using pluck_min_sift_down_by_levels[where i = 0 and isBetterThan = isBetterThan_int
        and minheap = "\<lparr>heap = [None, Some 1, None, None], size_mh = 2, capacity = 4\<rparr>"
        and ns = sample_nodes]
    by (simp add: lr)
  have two: "smaller_child isBetterThan_int
       \<lparr>heap = [None, Some 1, Some 2, None], size_mh = 3, capacity = 4\<rparr> sample_nodes
       (left_child_index 0) (right_child_index 0) = Inr 2"
    using pluck_min_sift_down_by_levels[where i = 0 and isBetterThan = isBetterThan_int
        and minheap = "\<lparr>heap = [None, Some 1, Some 2, None], size_mh = 3, capacity = 4\<rparr>"
        and ns = sample_nodes and x = 1 and y = 2]
    by (simp add: lr sample_nodes_def isBetterThan_int_def)
  have tie: "smaller_child isBetterThan_int
       \<lparr>heap = [None, Some 1, Some 4, None], size_mh = 3, capacity = 4\<rparr> sample_nodes
       (left_child_index 0) (right_child_index 0) = Inr 1"
    using pluck_min_sift_down_by_levels[where i = 0 and isBetterThan = isBetterThan_int
        and minheap = "\<lparr>heap = [None, Some 1, Some 4, None], size_mh = 3, capacity = 4\<rparr>"
        and ns = sample_nodes and x = 1 and y = 4]
    by (simp add: lr sample_nodes_def isBetterThan_int_def)
  have loop: "pluck_min_loop isBetterThan_int (Some 3)
       \<lparr>heap = [None, Some 1, Some 2, None], size_mh = 3, capacity = 4\<rparr> sample_nodes 0
     = sift_down_swaps isBetterThan_int
         \<lparr>heap = [Some 3, Some 1, Some 2, None], size_mh = 3, capacity = 4\<rparr>
         (sample_nodes[3 := (sample_nodes ! 3)\<lparr>heapIndex := 0\<rparr>]) 0"
    using pluck_min_sift_down_by_levels[where i = 0 and isBetterThan = isBetterThan_int
        and minheap = "\<lparr>heap = [None, Some 1, Some 2, None], size_mh = 3, capacity = 4\<rparr>"
        and ns = sample_nodes and a = 3]
    by (simp add: sample_nodes_def)
  have v: "sift_down_swaps isBetterThan_int
         \<lparr>heap = [Some 3, Some 1, Some 2, None], size_mh = 3, capacity = 4\<rparr>
         (sample_nodes[3 := (sample_nodes ! 3)\<lparr>heapIndex := 0\<rparr>]) 0
     = Inr (\<lparr>heap = [Some 2, Some 1, Some 3, None], size_mh = 3, capacity = 4\<rparr>,
         [\<lparr>data = Some 10, weight = 1, parent = None, heapIndex = 0\<rparr>,
          \<lparr>data = Some 11, weight = 3, parent = Some 0, heapIndex = 1\<rparr>,
          \<lparr>data = Some 12, weight = 2, parent = Some 0, heapIndex = 0\<rparr>,
          \<lparr>data = Some 13, weight = 5, parent = Some 1, heapIndex = 2\<rparr>,
          \<lparr>data = Some 14, weight = 3, parent = Some 2, heapIndex = 0\<rparr>])"
    by code_simp
  from one two tie loop v show ?thesis by blast
qed

subsection \<open>Insertion of a new node\<close>

text \<open>
  What \<^verbatim>\<open>MinHeap_update_key\<close> does with a new node when there is room: it stores the pointer
  in slot \<open>size\<close>, increments the size, and sifts up from the index that the node's
  \<^verbatim>\<open>heapIndex\<close> field held before the call. The field is not written first.
\<close>

lemma update_key_new_sifts_from_old_heapIndex:
  "size_mh minheap \<noteq> capacity minheap \<Longrightarrow> size_mh minheap < length (heap minheap) \<Longrightarrow>
   a < length ns \<Longrightarrow>
   MinHeap_update_key minheap ns (Some a) True isBetterThan =
     MinHeap_bubble_up
       (minheap\<lparr>heap := (heap minheap)[size_mh minheap := Some a],
                size_mh := size_mh minheap + 1\<rparr>)
       ns (heapIndex (ns ! a)) isBetterThan"
  by (simp add: MinHeap_update_key_def ebind_def heap_set_def get_heapIndex_def)

text \<open>
  C1 on the second insertion of a run: the heap holds one node of weight \<open>3\<close>, and a new
  node of weight \<open>2\<close> arrives whose \<^verbatim>\<open>heapIndex\<close> field holds \<open>0\<close>, as in zero-filled
  memory. The node is stored in slot \<open>1\<close>, but its \<^verbatim>\<open>heapIndex\<close> stays \<open>0\<close>, and it is not
  sifted up although its weight is better than the root's: the sift-up ran from slot \<open>0\<close>.
\<close>

theorem update_key_new_ignores_position:
  "MinHeap_update_key \<lparr>heap = [Some 0, None], size_mh = 1, capacity = 2\<rparr>
     [\<lparr>data = Some (1::int), weight = (3::int), parent = None, heapIndex = 0\<rparr>,
      \<lparr>data = Some 3, weight = 2, parent = None, heapIndex = 0\<rparr>]
     (Some 1) True isBetterThan_int
   = Inr (\<lparr>heap = [Some 0, Some 1], size_mh = 2, capacity = 2\<rparr>,
          [\<lparr>data = Some 1, weight = 3, parent = None, heapIndex = 0\<rparr>,
           \<lparr>data = Some 3, weight = 2, parent = None, heapIndex = 0\<rparr>])"
  by code_simp

text \<open>
  C4 on the same call: the heap property holds before it and fails after it, the node in
  slot \<open>1\<close> being better than its parent in slot \<open>0\<close>.
\<close>

theorem update_key_new_breaks_heap_property:
  "heap_property isBetterThan_int \<lparr>heap = [Some 0, None], size_mh = 1, capacity = 2\<rparr>
     [\<lparr>data = Some (1::int), weight = (3::int), parent = None, heapIndex = 0\<rparr>,
      \<lparr>data = Some 3, weight = 2, parent = None, heapIndex = 0\<rparr>]
   \<and> (case MinHeap_update_key \<lparr>heap = [Some 0, None], size_mh = 1, capacity = 2\<rparr>
            [\<lparr>data = Some (1::int), weight = (3::int), parent = None, heapIndex = 0\<rparr>,
             \<lparr>data = Some 3, weight = 2, parent = None, heapIndex = 0\<rparr>]
            (Some 1) True isBetterThan_int of
         Inl e \<Rightarrow> False
       | Inr (minheap', ns') \<Rightarrow> \<not> heap_property isBetterThan_int minheap' ns')"
  by code_simp

text \<open>
  C5 on the same call: every resident node carries its slot in \<^verbatim>\<open>heapIndex\<close> before it;
  after it the node in slot \<open>1\<close> carries \<open>0\<close>.
\<close>

theorem update_key_new_breaks_heapIndex:
  "heapIndex_consistent \<lparr>heap = [Some 0, None], size_mh = 1, capacity = 2\<rparr>
     [\<lparr>data = Some (1::int), weight = (3::int), parent = None, heapIndex = 0\<rparr>,
      \<lparr>data = Some 3, weight = 2, parent = None, heapIndex = 0\<rparr>]
   \<and> (case MinHeap_update_key \<lparr>heap = [Some 0, None], size_mh = 1, capacity = 2\<rparr>
            [\<lparr>data = Some (1::int), weight = (3::int), parent = None, heapIndex = 0\<rparr>,
             \<lparr>data = Some 3, weight = 2, parent = None, heapIndex = 0\<rparr>]
            (Some 1) True isBetterThan_int of
         Inl e \<Rightarrow> False
       | Inr (minheap', ns') \<Rightarrow> \<not> heapIndex_consistent minheap' ns')"
  by code_simp

subsection \<open>The index field on the other paths\<close>

lemma heapIndex_consistent_iff:
  "heapIndex_consistent minheap ns \<longleftrightarrow>
     (\<forall>i<size_mh minheap. \<exists>a. heap minheap ! i = Some a \<and> a < length ns
         \<and> heapIndex (ns ! a) = i)"
proof -
  have "\<And>i. (case heap minheap ! i of
              Some a \<Rightarrow> a < length ns \<and> heapIndex (ns ! a) = i | None \<Rightarrow> False)
        \<longleftrightarrow> (\<exists>a. heap minheap ! i = Some a \<and> a < length ns \<and> heapIndex (ns ! a) = i)"
    by (simp split: option.splits)
  then show ?thesis
    by (auto simp add: heapIndex_consistent_def list_all_iff)
qed

text \<open>
  The sift-up loop stands at slot \<open>curr_index\<close> with the node \<open>a\<close> in hand. If every other
  resident slot holds a node other than \<open>a\<close> that carries its slot, the loop returns, and
  every resident slot then holds a node that carries its slot.
\<close>

lemma bubble_up_loop_consistent:
  "size_mh minheap \<le> length (heap minheap) \<Longrightarrow> curr_index < size_mh minheap \<Longrightarrow>
   a < length ns \<Longrightarrow>
   (\<forall>k<size_mh minheap. k \<noteq> curr_index \<longrightarrow>
      (\<exists>c. heap minheap ! k = Some c \<and> c < length ns \<and> c \<noteq> a \<and> heapIndex (ns ! c) = k)) \<Longrightarrow>
   \<exists>minheap' ns'. bubble_up_loop isBetterThan (Some a) minheap ns curr_index = Inr (minheap', ns')
      \<and> size_mh minheap' = size_mh minheap \<and> capacity minheap' = capacity minheap
      \<and> length (heap minheap') = length (heap minheap) \<and> length ns' = length ns
      \<and> heapIndex_consistent minheap' ns'"
proof (induction isBetterThan "Some a :: ptr" minheap ns curr_index rule: bubble_up_loop.induct)
  case (1 isBetterThan minheap ns curr_index)
  let ?H = "heap minheap"
  let ?m' = "minheap\<lparr>heap := ?H[curr_index := Some a]\<rparr>"
  let ?ns' = "ns[a := (ns ! a)\<lparr>heapIndex := curr_index\<rparr>]"
  from "1.prems" have cl: "curr_index < length ?H" by simp
  have place: "bubble_up_place (Some a) minheap ns curr_index = Inr (?m', ?ns')"
    using "1.prems" cl by (simp add: bubble_up_place_def ebind_def heap_set_def set_heapIndex_def)
  have placed: "heapIndex_consistent ?m' ?ns'"
    unfolding heapIndex_consistent_iff
  proof (intro allI impI)
    fix k assume k: "k < size_mh ?m'"
    show "\<exists>c. heap ?m' ! k = Some c \<and> c < length ?ns' \<and> heapIndex (?ns' ! c) = k"
    proof (cases "k = curr_index")
      case True
      with cl "1.prems" show ?thesis by simp
    next
      case False
      with k "1.prems"(4) obtain c where "?H ! k = Some c" "c < length ns" "c \<noteq> a"
        "heapIndex (ns ! c) = k" by auto
      with False show ?thesis by simp
    qed
  qed
  show ?case
  proof (cases "curr_index > 0")
    case False
    with place placed show ?thesis
      by (subst bubble_up_loop.simps) simp
  next
    case True
    let ?p = "parent_index curr_index"
    from True have plt: "?p < curr_index" by (simp add: parent_index_def)
    with "1.prems" have psz: "?p < size_mh minheap" "?p < length ?H" by simp_all
    from "1.prems"(4) psz plt obtain b where b: "?H ! ?p = Some b" "b < length ns" "b \<noteq> a"
      "heapIndex (ns ! b) = ?p" by (metis nat_neq_iff)
    have wa: "get_weight ns (Some a) = Inr (weight (ns ! a))"
      using "1.prems" by (simp add: get_weight_def)
    have gp: "heap_get ?H ?p = Inr (Some b)"
      using psz b by (simp add: heap_get_def)
    have wb: "get_weight ns (Some b) = Inr (weight (ns ! b))"
      using b by (simp add: get_weight_def)
    show ?thesis
    proof (cases "isBetterThan (weight (ns ! a)) (weight (ns ! b))")
      case False
      with True wa gp wb place placed show ?thesis
        by (subst bubble_up_loop.simps) (simp add: ebind_def)
    next
      case better: True
      let ?ns1 = "ns[b := (ns ! b)\<lparr>heapIndex := curr_index\<rparr>]"
      let ?m1 = "minheap\<lparr>heap := ?H[curr_index := Some b]\<rparr>"
      have s1: "set_heapIndex ns (Some b) curr_index = Inr ?ns1"
        using b by (simp add: set_heapIndex_def)
      have h1: "heap_set ?H curr_index (Some b) = Inr (?H[curr_index := Some b])"
        using cl by (simp add: heap_set_def)
      have inv: "\<forall>k<size_mh ?m1. k \<noteq> ?p \<longrightarrow>
          (\<exists>c. heap ?m1 ! k = Some c \<and> c < length ?ns1 \<and> c \<noteq> a \<and> heapIndex (?ns1 ! c) = k)"
      proof (intro allI impI)
        fix k assume k: "k < size_mh ?m1" "k \<noteq> ?p"
        show "\<exists>c. heap ?m1 ! k = Some c \<and> c < length ?ns1 \<and> c \<noteq> a \<and> heapIndex (?ns1 ! c) = k"
        proof (cases "k = curr_index")
          case True
          with cl b show ?thesis by simp
        next
          case False
          with k "1.prems"(4) obtain c where c: "?H ! k = Some c" "c < length ns" "c \<noteq> a"
            "heapIndex (ns ! c) = k" by auto
          with k b have "c \<noteq> b" by auto
          with c False show ?thesis by simp
        qed
      qed
      have "\<exists>minheap' ns'. bubble_up_loop isBetterThan (Some a) ?m1 ?ns1 ?p = Inr (minheap', ns')
          \<and> size_mh minheap' = size_mh ?m1 \<and> capacity minheap' = capacity ?m1
          \<and> length (heap minheap') = length (heap ?m1) \<and> length ns' = length ?ns1
          \<and> heapIndex_consistent minheap' ns'"
        using "1.hyps"[OF True wa gp wb better s1 h1] "1.prems" psz inv by simp
      moreover have "bubble_up_loop isBetterThan (Some a) minheap ns curr_index
          = bubble_up_loop isBetterThan (Some a) ?m1 ?ns1 ?p"
        using True wa gp wb better s1 h1
        by (subst bubble_up_loop.simps) (simp add: ebind_def)
      ultimately show ?thesis by simp
    qed
  qed
qed


text \<open>
  \<^verbatim>\<open>MinHeap_bubble_up\<close> from a resident slot of a heap whose resident nodes carry their
  slots returns, and leaves such a heap: the sift-up writes \<^verbatim>\<open>heapIndex\<close> with every move.
\<close>

lemma bubble_up_consistent:
  assumes "size_mh minheap \<le> length (heap minheap)" and "i < size_mh minheap"
    and "heapIndex_consistent minheap ns"
  shows "\<exists>minheap' ns'. MinHeap_bubble_up minheap ns i isBetterThan = Inr (minheap', ns')
      \<and> size_mh minheap' = size_mh minheap \<and> capacity minheap' = capacity minheap
      \<and> length (heap minheap') = length (heap minheap) \<and> length ns' = length ns
      \<and> heapIndex_consistent minheap' ns'"
proof -
  from assms(2,3) obtain a where a: "heap minheap ! i = Some a" "a < length ns"
    "heapIndex (ns ! a) = i"
    by (auto simp: heapIndex_consistent_iff)
  have "\<forall>k<size_mh minheap. k \<noteq> i \<longrightarrow>
      (\<exists>c. heap minheap ! k = Some c \<and> c < length ns \<and> c \<noteq> a \<and> heapIndex (ns ! c) = k)"
  proof (intro allI impI)
    fix k assume k: "k < size_mh minheap" "k \<noteq> i"
    with assms(3) obtain c where c: "heap minheap ! k = Some c" "c < length ns"
      "heapIndex (ns ! c) = k"
      by (auto simp: heapIndex_consistent_iff)
    with k a have "c \<noteq> a" by auto
    with c show "\<exists>c. heap minheap ! k = Some c \<and> c < length ns \<and> c \<noteq> a
        \<and> heapIndex (ns ! c) = k" by simp
  qed
  from bubble_up_loop_consistent[OF assms(1,2) a(2) this, of isBetterThan] a assms(1,2)
  show ?thesis
    by (simp add: MinHeap_bubble_up_def ebind_def heap_get_def)
qed

text \<open>
  So does \<^verbatim>\<open>MinHeap_update_key\<close> for a resident node (\<^verbatim>\<open>NodeIsNew\<close> false). For a new node
  it does so when the node's \<^verbatim>\<open>heapIndex\<close> already holds the old size, which is what a
  store of the position before the sift-up would establish.
\<close>

lemma update_key_resident_consistent:
  assumes "size_mh minheap \<le> length (heap minheap)" and "heapIndex_consistent minheap ns"
    and "a < length ns" and "heapIndex (ns ! a) < size_mh minheap"
  shows "\<exists>minheap' ns'. MinHeap_update_key minheap ns (Some a) False isBetterThan
        = Inr (minheap', ns')
      \<and> size_mh minheap' = size_mh minheap \<and> heapIndex_consistent minheap' ns'"
proof -
  from bubble_up_consistent[OF assms(1,4,2), of isBetterThan] assms(3)
  show ?thesis
    by (auto simp: MinHeap_update_key_def ebind_def get_heapIndex_def)
qed

lemma update_key_new_consistent_if_position_stored:
  assumes "size_mh minheap < length (heap minheap)" and "size_mh minheap \<noteq> capacity minheap"
    and "heapIndex_consistent minheap ns"
    and "a < length ns" and "\<forall>k<size_mh minheap. heap minheap ! k \<noteq> Some a"
    and "heapIndex (ns ! a) = size_mh minheap"
  shows "\<exists>minheap' ns'. MinHeap_update_key minheap ns (Some a) True isBetterThan
        = Inr (minheap', ns')
      \<and> size_mh minheap' = size_mh minheap + 1 \<and> heapIndex_consistent minheap' ns'"
proof -
  let ?m = "minheap\<lparr>heap := (heap minheap)[size_mh minheap := Some a],
      size_mh := size_mh minheap + 1\<rparr>"
  have c: "heapIndex_consistent ?m ns"
    unfolding heapIndex_consistent_iff
  proof (intro allI impI)
    fix i assume "i < size_mh ?m"
    then have "i < size_mh minheap \<or> i = size_mh minheap" by auto
    then show "\<exists>b. heap ?m ! i = Some b \<and> b < length ns \<and> heapIndex (ns ! b) = i"
    proof
      assume "i < size_mh minheap"
      with assms(3) show ?thesis by (auto simp: heapIndex_consistent_iff)
    next
      assume "i = size_mh minheap"
      with assms(1,4,6) show ?thesis by simp
    qed
  qed
  have "\<exists>minheap' ns'. MinHeap_bubble_up ?m ns (size_mh minheap) isBetterThan
        = Inr (minheap', ns')
      \<and> size_mh minheap' = size_mh ?m \<and> capacity minheap' = capacity ?m
      \<and> length (heap minheap') = length (heap ?m) \<and> length ns' = length ns
      \<and> heapIndex_consistent minheap' ns'"
    using assms(1) c by (intro bubble_up_consistent) simp_all
  with assms(1,2,4,6) show ?thesis
    by (auto simp: MinHeap_update_key_def ebind_def heap_set_def get_heapIndex_def)
qed

text \<open>One swap of two different resident slots keeps the nodes carrying their slots.\<close>

lemma swap_slots_consistent:
  assumes "size_mh minheap \<le> length (heap minheap)" and "heapIndex_consistent minheap ns"
    and "i < size_mh minheap" and "j < size_mh minheap" and "i \<noteq> j"
  shows "\<exists>minheap' ns'. swap_slots minheap ns i j = Inr (minheap', ns')
      \<and> size_mh minheap' = size_mh minheap \<and> capacity minheap' = capacity minheap
      \<and> length (heap minheap') = length (heap minheap) \<and> length ns' = length ns
      \<and> heapIndex_consistent minheap' ns'"
proof -
  let ?H = "heap minheap"
  from assms obtain a where a: "?H ! i = Some a" "a < length ns" "heapIndex (ns ! a) = i"
    by (auto simp: heapIndex_consistent_iff)
  from assms obtain b where b: "?H ! j = Some b" "b < length ns" "heapIndex (ns ! b) = j"
    by (auto simp: heapIndex_consistent_iff)
  from a b assms(5) have ab: "a \<noteq> b" by auto
  let ?m' = "minheap\<lparr>heap := ?H[i := Some b, j := Some a]\<rparr>"
  let ?ns1 = "ns[b := (ns ! b)\<lparr>heapIndex := i\<rparr>]"
  let ?ns' = "?ns1[a := (?ns1 ! a)\<lparr>heapIndex := j\<rparr>]"
  have sw: "swap_slots minheap ns i j = Inr (?m', ?ns')"
    using assms a b by (simp add: swap_slots_def ebind_def heap_get_def heap_set_def
        set_heapIndex_def)
  have "heapIndex_consistent ?m' ?ns'"
    unfolding heapIndex_consistent_iff
  proof (intro allI impI)
    fix k assume k: "k < size_mh ?m'"
    consider "k = i" | "k = j" | "k \<noteq> i" "k \<noteq> j" by blast
    then show "\<exists>c. heap ?m' ! k = Some c \<and> c < length ?ns' \<and> heapIndex (?ns' ! c) = k"
    proof cases
      case 1
      with assms a b ab show ?thesis by simp
    next
      case 2
      with assms a b ab show ?thesis by simp
    next
      case 3
      with k assms(2) obtain c where c: "?H ! k = Some c" "c < length ns"
        "heapIndex (ns ! c) = k" by (auto simp: heapIndex_consistent_iff)
      with 3 a b have "c \<noteq> a" "c \<noteq> b" by auto
      with c 3 show ?thesis by simp
    qed
  qed
  with sw show ?thesis by simp
qed

lemma smaller_child_consistent:
  assumes "size_mh minheap \<le> length (heap minheap)" and "heapIndex_consistent minheap ns"
    and "l < size_mh minheap"
  shows "\<exists>c. smaller_child isBetterThan minheap ns l r = Inr c"
proof (cases "r < size_mh minheap")
  case False
  then show ?thesis by (simp add: smaller_child_def)
next
  case True
  with assms obtain a b where "heap minheap ! l = Some a" "a < length ns"
    "heap minheap ! r = Some b" "b < length ns"
    by (auto simp: heapIndex_consistent_iff) metis
  with True assms show ?thesis
    by (simp add: smaller_child_def ebind_def heap_get_def get_weight_def)
qed

lemma sift_down_swaps_consistent:
  "size_mh minheap \<le> length (heap minheap) \<Longrightarrow> heapIndex_consistent minheap ns \<Longrightarrow>
   i < size_mh minheap \<Longrightarrow>
   \<exists>minheap' ns'. sift_down_swaps isBetterThan minheap ns i = Inr (minheap', ns')
      \<and> size_mh minheap' = size_mh minheap \<and> capacity minheap' = capacity minheap
      \<and> length (heap minheap') = length (heap minheap) \<and> length ns' = length ns
      \<and> heapIndex_consistent minheap' ns'"
proof (induction isBetterThan minheap ns i rule: sift_down_swaps.induct)
  case (1 isBetterThan minheap ns i)
  let ?l = "left_child_index i" and ?r = "right_child_index i"
  show ?case
  proof (cases "?l < size_mh minheap")
    case False
    with "1.prems" show ?thesis
      by (subst sift_down_swaps.simps) simp
  next
    case True
    from smaller_child_consistent[OF "1.prems"(1,2) True, of isBetterThan ?r]
    obtain c where c: "smaller_child isBetterThan minheap ns ?l ?r = Inr c" by blast
    then have "c = ?l \<or> (c = ?r \<and> ?r < size_mh minheap)" by (rule smaller_child_range)
    with True have csz: "c < size_mh minheap" and ci: "i \<noteq> c"
      by (auto simp: left_child_index_def right_child_index_def)
    from "1.prems" csz obtain b where b: "heap minheap ! c = Some b" "b < length ns"
      by (auto simp: heapIndex_consistent_iff)
    from "1.prems" obtain a where a: "heap minheap ! i = Some a" "a < length ns"
      by (auto simp: heapIndex_consistent_iff)
    have gc: "heap_get (heap minheap) c = Inr (Some b)"
      using "1.prems" csz b by (simp add: heap_get_def)
    have gi: "heap_get (heap minheap) i = Inr (Some a)"
      using "1.prems" a by (simp add: heap_get_def)
    have wb: "get_weight ns (Some b) = Inr (weight (ns ! b))"
      using b by (simp add: get_weight_def)
    have wa: "get_weight ns (Some a) = Inr (weight (ns ! a))"
      using a by (simp add: get_weight_def)
    show ?thesis
    proof (cases "isBetterThan (weight (ns ! b)) (weight (ns ! a))")
      case False
      with True c gc gi wb wa "1.prems" show ?thesis
        by (subst sift_down_swaps.simps) (simp add: ebind_def)
    next
      case better: True
      from swap_slots_consistent[OF "1.prems"(1,2,3) csz ci]
      obtain m1 ns1 where sw: "swap_slots minheap ns i c = Inr (m1, ns1)"
        and keep: "size_mh m1 = size_mh minheap" "capacity m1 = capacity minheap"
          "length (heap m1) = length (heap minheap)" "length ns1 = length ns"
        and cons: "heapIndex_consistent m1 ns1" by blast
      have "\<exists>minheap' ns'. sift_down_swaps isBetterThan m1 ns1 c = Inr (minheap', ns')
          \<and> size_mh minheap' = size_mh m1 \<and> capacity minheap' = capacity m1
          \<and> length (heap minheap') = length (heap m1) \<and> length ns' = length ns1
          \<and> heapIndex_consistent minheap' ns'"
        using "1.IH"[OF True c gc wb gi wa better sw refl] keep cons csz "1.prems"(1)
        by simp
      moreover have "sift_down_swaps isBetterThan minheap ns i
          = sift_down_swaps isBetterThan m1 ns1 c"
        using True c gc gi wb wa better sw
        by (subst sift_down_swaps.simps) (simp add: ebind_def)
      ultimately show ?thesis using keep by simp
    qed
  qed
qed

text \<open>
  \<^verbatim>\<open>MinHeap_pluck_min\<close> on a heap whose resident nodes carry their slots returns, and leaves
  such a heap.
\<close>

lemma pluck_min_consistent:
  assumes "size_mh minheap \<le> length (heap minheap)" and "heapIndex_consistent minheap ns"
  shows "\<exists>p minheap' ns'. MinHeap_pluck_min minheap ns isBetterThan = Inr (p, minheap', ns')
      \<and> size_mh minheap' = size_mh minheap - 1 \<and> heapIndex_consistent minheap' ns'"
proof -
  let ?H = "heap minheap" and ?n = "size_mh minheap"
  consider "?n = 0" | "?n = 1" | "1 < ?n" by linarith
  then show ?thesis
  proof cases
    case 1
    with assms show ?thesis by (simp add: MinHeap_pluck_min_def)
  next
    case 2
    with assms(1) have "0 < length ?H" by linarith
    with 2 have "MinHeap_pluck_min minheap ns isBetterThan
        = Inr (?H ! 0, minheap\<lparr>heap := ?H[0 := None], size_mh := 0\<rparr>, ns)"
      by (simp add: MinHeap_pluck_min_def ebind_def heap_get_def heap_set_def)
    with 2 show ?thesis by (simp add: heapIndex_consistent_iff)
  next
    case 3
    then have "?n - 1 < ?n" by simp
    with assms(2) obtain a where a: "?H ! (?n - 1) = Some a" "a < length ns"
      "heapIndex (ns ! a) = ?n - 1"
      unfolding heapIndex_consistent_iff by blast
    let ?m = "minheap\<lparr>heap := ?H[?n - 1 := None], size_mh := ?n - 1\<rparr>"
    let ?m2 = "minheap\<lparr>heap := ?H[?n - 1 := None, 0 := Some a], size_mh := ?n - 1\<rparr>"
    let ?ns2 = "ns[a := (ns ! a)\<lparr>heapIndex := 0\<rparr>]"
    from 3 assms(1) have len: "0 < length ?H" "?n - 1 < length ?H" by linarith+
    have pm: "MinHeap_pluck_min minheap ns isBetterThan =
        ebind (sift_down_swaps isBetterThan ?m2 ?ns2 0)
          (\<lambda>(minheap', ns'). Inr (?H ! 0, minheap', ns'))"
      using 3 assms(1) a(1,2) by (rule pluck_min_by_swaps)
    have c2: "heapIndex_consistent ?m2 ?ns2"
      unfolding heapIndex_consistent_iff
    proof (intro allI impI)
      fix k assume k: "k < size_mh ?m2"
      show "\<exists>c. heap ?m2 ! k = Some c \<and> c < length ?ns2 \<and> heapIndex (?ns2 ! c) = k"
      proof (cases "k = 0")
        case True
        with a len show ?thesis by simp
      next
        case False
        from k have kn: "k < ?n" "k \<noteq> ?n - 1" by simp_all
        with assms(2) obtain c where c: "?H ! k = Some c" "c < length ns"
          "heapIndex (ns ! c) = k" by (auto simp: heapIndex_consistent_iff)
        with kn a have "c \<noteq> a" by auto
        with c False kn show ?thesis by simp
      qed
    qed
    have "\<exists>minheap' ns'. sift_down_swaps isBetterThan ?m2 ?ns2 0 = Inr (minheap', ns')
        \<and> size_mh minheap' = size_mh ?m2 \<and> capacity minheap' = capacity ?m2
        \<and> length (heap minheap') = length (heap ?m2) \<and> length ns' = length ?ns2
        \<and> heapIndex_consistent minheap' ns'"
      using assms(1) 3 c2 by (intro sift_down_swaps_consistent) simp_all
    then obtain m3 ns3 where r: "sift_down_swaps isBetterThan ?m2 ?ns2 0 = Inr (m3, ns3)"
      "size_mh m3 = size_mh ?m2" "heapIndex_consistent m3 ns3" by blast
    have "MinHeap_pluck_min minheap ns isBetterThan = Inr (?H ! 0, m3, ns3)"
      by (simp only: pm r(1)) (simp add: ebind_def)
    with r(2,3) show ?thesis by simp
  qed
qed

subsection \<open>The heap property on the other paths\<close>

lemma heap_property_iff:
  assumes "heapIndex_consistent minheap ns"
  shows "heap_property isBetterThan minheap ns \<longleftrightarrow>
     (\<forall>k<size_mh minheap. 0 < k \<longrightarrow>
        \<not> isBetterThan (slot_weight minheap ns k) (slot_weight minheap ns (parent_index k)))"
proof -
  have "\<And>k. k < size_mh minheap \<Longrightarrow> 0 < k \<Longrightarrow>
      (case (heap minheap ! k, heap minheap ! parent_index k) of
         (Some a, Some b) \<Rightarrow> \<not> isBetterThan (weight (ns ! a)) (weight (ns ! b))
       | _ \<Rightarrow> False)
      \<longleftrightarrow> \<not> isBetterThan (slot_weight minheap ns k) (slot_weight minheap ns (parent_index k))"
  proof -
    fix k assume k: "k < size_mh minheap" "0 < k"
    then have "parent_index k < size_mh minheap" by (simp add: parent_index_def)
    with assms k obtain a b where "heap minheap ! k = Some a" "heap minheap ! parent_index k = Some b"
      unfolding heapIndex_consistent_iff by blast
    then show "(case (heap minheap ! k, heap minheap ! parent_index k) of
         (Some a, Some b) \<Rightarrow> \<not> isBetterThan (weight (ns ! a)) (weight (ns ! b))
       | _ \<Rightarrow> False)
      \<longleftrightarrow> \<not> isBetterThan (slot_weight minheap ns k) (slot_weight minheap ns (parent_index k))"
      by (simp add: slot_weight_def)
  qed
  then show ?thesis
    by (auto simp: heap_property_def list_all_iff)
qed

lemma parent_index_child:
  "0 < k \<Longrightarrow> parent_index k = i \<longleftrightarrow> k = left_child_index i \<or> k = right_child_index i"
  by (auto simp: parent_index_def left_child_index_def right_child_index_def)

lemma swap_slots_weights:
  assumes "size_mh minheap \<le> length (heap minheap)" and "heapIndex_consistent minheap ns"
    and "i < size_mh minheap" and "j < size_mh minheap" and "i \<noteq> j"
    and "swap_slots minheap ns i j = Inr (minheap', ns')" and "k < size_mh minheap"
  shows "slot_weight minheap' ns' k =
     slot_weight minheap ns (if k = i then j else if k = j then i else k)"
proof -
  let ?H = "heap minheap"
  from assms obtain a where a: "?H ! i = Some a" "a < length ns" "heapIndex (ns ! a) = i"
    by (auto simp: heapIndex_consistent_iff)
  from assms obtain b where b: "?H ! j = Some b" "b < length ns" "heapIndex (ns ! b) = j"
    by (auto simp: heapIndex_consistent_iff)
  from assms obtain c where c: "?H ! k = Some c" "c < length ns" "heapIndex (ns ! c) = k"
    by (auto simp: heapIndex_consistent_iff)
  let ?ns1 = "ns[b := (ns ! b)\<lparr>heapIndex := i\<rparr>]"
  have sw: "swap_slots minheap ns i j
      = Inr (minheap\<lparr>heap := ?H[i := Some b, j := Some a]\<rparr>,
             ?ns1[a := (?ns1 ! a)\<lparr>heapIndex := j\<rparr>])"
    using assms a b by (simp add: swap_slots_def ebind_def heap_get_def heap_set_def
        set_heapIndex_def)
  from sw assms(6) have m': "minheap' = minheap\<lparr>heap := ?H[i := Some b, j := Some a]\<rparr>"
    and n': "ns' = ?ns1[a := (?ns1 ! a)\<lparr>heapIndex := j\<rparr>]" by simp_all
  have w: "weight (ns' ! x) = weight (ns ! x)" if "x < length ns" for x
    using that a b by (simp add: n' nth_list_update)
  from assms(1,3,4,7) have lens: "i < length ?H" "j < length ?H" "k < length ?H" by simp_all
  consider "k = i" | "k = j" "k \<noteq> i" | "k \<noteq> i" "k \<noteq> j" by blast
  then show ?thesis
  proof cases
    case 1
    with lens assms(5) have "heap minheap' ! k = Some b" by (simp add: m')
    with 1 b w[of b] show ?thesis by (simp add: slot_weight_def)
  next
    case 2
    with lens have "heap minheap' ! k = Some a" by (simp add: m')
    with 2 a w[of a] show ?thesis by (simp add: slot_weight_def)
  next
    case 3
    with lens have "heap minheap' ! k = Some c" by (simp add: m' c)
    with 3 c w[of c] show ?thesis by (simp add: slot_weight_def)
  qed
qed


lemma smaller_child_choice:
  assumes "size_mh minheap \<le> length (heap minheap)" and "heapIndex_consistent minheap ns"
    and "l < size_mh minheap" and "smaller_child isBetterThan minheap ns l r = Inr c"
  shows "(c = l \<and> (r < size_mh minheap \<longrightarrow>
            \<not> isBetterThan (slot_weight minheap ns r) (slot_weight minheap ns l)))
       \<or> (c = r \<and> r < size_mh minheap
            \<and> isBetterThan (slot_weight minheap ns r) (slot_weight minheap ns l))"
proof (cases "r < size_mh minheap")
  case False
  with assms(4) show ?thesis by (simp add: smaller_child_def)
next
  case True
  with assms obtain a b where "heap minheap ! l = Some a" "a < length ns"
    "heap minheap ! r = Some b" "b < length ns"
    by (auto simp: heapIndex_consistent_iff) metis
  with True assms show ?thesis
    by (auto simp: smaller_child_def ebind_def heap_get_def get_weight_def slot_weight_def
        split: if_splits)
qed

text \<open>
  The sift-down by swaps from slot \<open>i\<close> restores the heap property when it holds
  everywhere except between slot \<open>i\<close> and its children, and the children of slot \<open>i\<close> are
  not better than its parent. The comparator is asymmetric, and "not better than" is
  transitive, as for every strict total order.
\<close>

lemma sift_down_swaps_heap_property:
  "(\<And>x y. isBetterThan x y \<Longrightarrow> \<not> isBetterThan y x) \<Longrightarrow>
   (\<And>x y z. \<not> isBetterThan x y \<Longrightarrow> \<not> isBetterThan y z \<Longrightarrow> \<not> isBetterThan x z) \<Longrightarrow>
   size_mh minheap \<le> length (heap minheap) \<Longrightarrow> heapIndex_consistent minheap ns \<Longrightarrow>
   i < size_mh minheap \<Longrightarrow>
   (\<forall>k<size_mh minheap. 0 < k \<longrightarrow> parent_index k \<noteq> i \<longrightarrow>
      \<not> isBetterThan (slot_weight minheap ns k) (slot_weight minheap ns (parent_index k))) \<Longrightarrow>
   (0 < i \<longrightarrow> (\<forall>k<size_mh minheap. 0 < k \<longrightarrow> parent_index k = i \<longrightarrow>
      \<not> isBetterThan (slot_weight minheap ns k) (slot_weight minheap ns (parent_index i)))) \<Longrightarrow>
   sift_down_swaps isBetterThan minheap ns i = Inr (minheap', ns') \<Longrightarrow>
   (\<forall>k<size_mh minheap. 0 < k \<longrightarrow>
      \<not> isBetterThan (slot_weight minheap' ns' k) (slot_weight minheap' ns' (parent_index k)))"
proof (induction isBetterThan minheap ns i rule: sift_down_swaps.induct)
  case (1 isBetterThan minheap ns i)
  note asym = "1.prems"(1) and nt = "1.prems"(2)
  note len = "1.prems"(3) and cons = "1.prems"(4) and isz = "1.prems"(5)
  note inv1 = "1.prems"(6) and inv2 = "1.prems"(7) and res = "1.prems"(8)
  let ?l = "left_child_index i" and ?r = "right_child_index i"
  let ?W = "slot_weight minheap ns"
  let ?n = "size_mh minheap"
  show ?case
  proof (cases "?l < ?n")
    case False
    with res have same: "minheap' = minheap" "ns' = ns"
      by (subst (asm) sift_down_swaps.simps, simp)+
    have "\<not> isBetterThan (?W k) (?W (parent_index k))" if k: "k < ?n" "0 < k" for k
    proof -
      from k False have "parent_index k \<noteq> i"
        by (auto simp: parent_index_child left_child_index_def right_child_index_def)
      with inv1 k show ?thesis by blast
    qed
    with same show ?thesis by simp
  next
    case True
    from smaller_child_consistent[OF len cons True, of isBetterThan ?r]
    obtain c where c: "smaller_child isBetterThan minheap ns ?l ?r = Inr c" by blast
    from smaller_child_choice[OF len cons True c]
    have choice: "(c = ?l \<and> (?r < ?n \<longrightarrow> \<not> isBetterThan (?W ?r) (?W ?l)))
        \<or> (c = ?r \<and> ?r < ?n \<and> isBetterThan (?W ?r) (?W ?l))" .
    with True have csz: "c < ?n" and ci: "i \<noteq> c" and ic: "i < c"
      by (auto simp: left_child_index_def right_child_index_def)
    from choice have pc: "parent_index c = i" and c0: "0 < c"
      by (auto simp: parent_index_def left_child_index_def right_child_index_def)
    have other: "\<not> isBetterThan (?W k) (?W c)"
      if "k < ?n" "0 < k" "parent_index k = i" "k \<noteq> c" for k
    proof -
      from that have "k = ?l \<or> k = ?r" by (simp add: parent_index_child)
      with that choice show ?thesis using asym by auto
    qed
    from cons csz obtain b where b: "heap minheap ! c = Some b" "b < length ns"
      by (auto simp: heapIndex_consistent_iff)
    from cons isz obtain a where a: "heap minheap ! i = Some a" "a < length ns"
      by (auto simp: heapIndex_consistent_iff)
    have gc: "heap_get (heap minheap) c = Inr (Some b)"
      using len csz b by (simp add: heap_get_def)
    have gi: "heap_get (heap minheap) i = Inr (Some a)"
      using len isz a by (simp add: heap_get_def)
    have wb: "get_weight ns (Some b) = Inr (weight (ns ! b))"
      using b by (simp add: get_weight_def)
    have wa: "get_weight ns (Some a) = Inr (weight (ns ! a))"
      using a by (simp add: get_weight_def)
    have Wc: "?W c = weight (ns ! b)" and Wi: "?W i = weight (ns ! a)"
      using a b by (simp_all add: slot_weight_def)
    show ?thesis
    proof (cases "isBetterThan (weight (ns ! b)) (weight (ns ! a))")
      case False
      with True c gc gi wb wa res have same: "minheap' = minheap" "ns' = ns"
        by (subst (asm) sift_down_swaps.simps, simp add: ebind_def)+
      have "\<not> isBetterThan (?W k) (?W (parent_index k))" if k: "k < ?n" "0 < k" for k
      proof (cases "parent_index k = i")
        case pk: True
        show ?thesis
        proof (cases "k = c")
          case True
          with False Wc Wi pk show ?thesis by simp
        next
          case kc: False
          from other[OF k pk kc] False Wc Wi have "\<not> isBetterThan (?W k) (?W i)"
            using nt by metis
          with pk show ?thesis by simp
        qed
      next
        case False
        with inv1 k show ?thesis by blast
      qed
      with same show ?thesis by simp
    next
      case better: True
      from swap_slots_consistent[OF len cons isz csz ci]
      obtain m1 ns1 where sw: "swap_slots minheap ns i c = Inr (m1, ns1)"
        and keep: "size_mh m1 = ?n" "length (heap m1) = length (heap minheap)"
        and cons1: "heapIndex_consistent m1 ns1" by blast
      have W1: "slot_weight m1 ns1 k = ?W (if k = i then c else if k = c then i else k)"
        if "k < ?n" for k
        using swap_slots_weights[OF len cons isz csz ci sw that] .
      have step: "sift_down_swaps isBetterThan minheap ns i
          = sift_down_swaps isBetterThan m1 ns1 c"
        using True c gc gi wb wa better sw
        by (subst sift_down_swaps.simps) (simp add: ebind_def)
      have inv1': "\<forall>k<size_mh m1. 0 < k \<longrightarrow> parent_index k \<noteq> c \<longrightarrow>
          \<not> isBetterThan (slot_weight m1 ns1 k) (slot_weight m1 ns1 (parent_index k))"
      proof (intro allI impI)
        fix k assume k: "k < size_mh m1" "0 < k" "parent_index k \<noteq> c"
        with keep have kn: "k < ?n" by simp
        from k(2) have pkk: "parent_index k < k" by (simp add: parent_index_def)
        with kn have pkn: "parent_index k < ?n" by simp
        show "\<not> isBetterThan (slot_weight m1 ns1 k) (slot_weight m1 ns1 (parent_index k))"
        proof (cases "k = c")
          case True
          with W1[OF kn] W1[OF pkn] pc ci better Wc Wi show ?thesis
            using asym by simp
        next
          case kc: False
          show ?thesis
          proof (cases "k = i")
            case True
            with k(2) inv2 csz c0 pc have "\<not> isBetterThan (?W c) (?W (parent_index i))" by blast
            moreover from True pkk ic have "parent_index k \<noteq> i" "parent_index k \<noteq> c" by simp_all
            ultimately show ?thesis using W1[OF kn] W1[OF pkn] True by simp
          next
            case ki: False
            show ?thesis
            proof (cases "parent_index k = i")
              case True
              with other[OF kn k(2) True kc] W1[OF kn] W1[OF pkn] kc ki show ?thesis by simp
            next
              case False
              with inv1 kn k(2) have "\<not> isBetterThan (?W k) (?W (parent_index k))" by blast
              with W1[OF kn] W1[OF pkn] kc ki False k(3) show ?thesis by simp
            qed
          qed
        qed
      qed
      have inv2': "0 < c \<longrightarrow> (\<forall>k<size_mh m1. 0 < k \<longrightarrow> parent_index k = c \<longrightarrow>
          \<not> isBetterThan (slot_weight m1 ns1 k) (slot_weight m1 ns1 (parent_index c)))"
      proof (intro allI impI)
        fix k assume k: "k < size_mh m1" "0 < k" "parent_index k = c"
        with keep have kn: "k < ?n" by simp
        from k(2,3) have "c < k" by (auto simp: parent_index_def)
        with ic have kne: "k \<noteq> i" "k \<noteq> c" by simp_all
        from k ci inv1 kn have "\<not> isBetterThan (?W k) (?W c)" by metis
        with W1[OF kn] W1[OF isz] kne pc ci
        show "\<not> isBetterThan (slot_weight m1 ns1 k) (slot_weight m1 ns1 (parent_index c))"
          by simp
      qed
      from res step have res1: "sift_down_swaps isBetterThan m1 ns1 c = Inr (minheap', ns')"
        by simp
      have "\<forall>k<size_mh m1. 0 < k \<longrightarrow>
          \<not> isBetterThan (slot_weight minheap' ns' k) (slot_weight minheap' ns' (parent_index k))"
        using "1.IH"[OF True c gc wb gi wa better sw refl asym nt _ cons1 _ inv1' inv2' res1]
          keep len csz by simp
      with keep show ?thesis by simp
    qed
  qed
qed

lemma weight_update_heapIndex [simp]:
  "weight (ns[x := (ns ! x)\<lparr>heapIndex := v\<rparr>] ! y) = weight (ns ! y)"
  by (cases "x < length ns"; cases "x = y"; simp add: list_update_beyond)

lemma slot_weight_update_heapIndex [simp]:
  "slot_weight minheap (ns[x := (ns ! x)\<lparr>heapIndex := v\<rparr>]) k = slot_weight minheap ns k"
  by (simp add: slot_weight_def)

text \<open>
  The state in which the sift-down of the extraction starts: the last node in the root slot,
  the last slot cleared, the size decremented.
\<close>

lemma pluck_min_moved_consistent:
  assumes "1 < size_mh minheap" and "size_mh minheap \<le> length (heap minheap)"
    and "heapIndex_consistent minheap ns"
    and "heap minheap ! (size_mh minheap - 1) = Some a"
  shows "heapIndex_consistent
           (minheap\<lparr>heap := (heap minheap)[size_mh minheap - 1 := None, 0 := Some a],
                    size_mh := size_mh minheap - 1\<rparr>)
           (ns[a := (ns ! a)\<lparr>heapIndex := 0\<rparr>])"
    (is "heapIndex_consistent ?m2 ?ns2")
  unfolding heapIndex_consistent_iff
proof (intro allI impI)
  let ?H = "heap minheap" and ?n = "size_mh minheap"
  from assms(1) have "?n - 1 < ?n" by simp
  with assms(3,4) have a: "a < length ns" "heapIndex (ns ! a) = ?n - 1"
    unfolding heapIndex_consistent_iff by fastforce+
  from assms(1,2) have len: "0 < length ?H" "?n - 1 < length ?H" by linarith+
  fix k assume k: "k < size_mh ?m2"
  show "\<exists>c. heap ?m2 ! k = Some c \<and> c < length ?ns2 \<and> heapIndex (?ns2 ! c) = k"
  proof (cases "k = 0")
    case True
    with a len show ?thesis by simp
  next
    case False
    from k have kn: "k < ?n" "k \<noteq> ?n - 1" by simp_all
    with assms(3) obtain c where c: "?H ! k = Some c" "c < length ns"
      "heapIndex (ns ! c) = k" by (auto simp: heapIndex_consistent_iff)
    with kn a have "c \<noteq> a" by auto
    with c False kn show ?thesis by simp
  qed
qed

lemma pluck_min_heap_property:
  assumes asym: "\<And>x y. isBetterThan x y \<Longrightarrow> \<not> isBetterThan y x"
    and nt: "\<And>x y z. \<not> isBetterThan x y \<Longrightarrow> \<not> isBetterThan y z \<Longrightarrow> \<not> isBetterThan x z"
    and len: "size_mh minheap \<le> length (heap minheap)"
    and cons: "heapIndex_consistent minheap ns"
    and hp: "heap_property isBetterThan minheap ns"
    and res: "MinHeap_pluck_min minheap ns isBetterThan = Inr (p, minheap', ns')"
  shows "heap_property isBetterThan minheap' ns'"
proof -
  let ?H = "heap minheap" and ?n = "size_mh minheap"
  consider "?n = 0" | "?n = 1" | "1 < ?n" by linarith
  then show ?thesis
  proof cases
    case 1
    with res hp show ?thesis by (simp add: MinHeap_pluck_min_def)
  next
    case 2
    with len have "0 < length ?H" by linarith
    with 2 res have "size_mh minheap' = 0"
      by (auto simp: MinHeap_pluck_min_def ebind_def heap_get_def heap_set_def)
    then show ?thesis by (simp add: heap_property_def)
  next
    case 3
    then have "?n - 1 < ?n" by simp
    with cons obtain a where a: "?H ! (?n - 1) = Some a" "a < length ns"
      unfolding heapIndex_consistent_iff by blast
    let ?m2 = "minheap\<lparr>heap := ?H[?n - 1 := None, 0 := Some a], size_mh := ?n - 1\<rparr>"
    let ?ns2 = "ns[a := (ns ! a)\<lparr>heapIndex := 0\<rparr>]"
    have pm: "MinHeap_pluck_min minheap ns isBetterThan =
        ebind (sift_down_swaps isBetterThan ?m2 ?ns2 0)
          (\<lambda>(minheap', ns'). Inr (?H ! 0, minheap', ns'))"
      using 3 len a by (rule pluck_min_by_swaps)
    have c2: "heapIndex_consistent ?m2 ?ns2"
      using 3 len cons a(1) by (rule pluck_min_moved_consistent)
    have l2: "size_mh ?m2 \<le> length (heap ?m2)" and z2: "0 < size_mh ?m2"
      using len 3 by simp_all
    from res pm have sd: "sift_down_swaps isBetterThan ?m2 ?ns2 0 = Inr (minheap', ns')"
      by (auto simp: ebind_def split: sum.splits)
    from sift_down_swaps_consistent[OF l2 c2 z2, of isBetterThan] sd
    have c': "heapIndex_consistent minheap' ns'" and s': "size_mh minheap' = size_mh ?m2"
      by simp_all
    have old: "\<not> isBetterThan (slot_weight minheap ns k) (slot_weight minheap ns (parent_index k))"
      if "k < ?n" "0 < k" for k
      using hp that unfolding heap_property_iff[OF cons] by blast
    have W2: "slot_weight ?m2 ?ns2 k = slot_weight minheap ns k" if "k < ?n - 1" "0 < k" for k
      using that by (simp add: slot_weight_def)
    have inv1: "\<forall>k<size_mh ?m2. 0 < k \<longrightarrow> parent_index k \<noteq> 0 \<longrightarrow>
        \<not> isBetterThan (slot_weight ?m2 ?ns2 k) (slot_weight ?m2 ?ns2 (parent_index k))"
    proof (intro allI impI)
      fix k assume k: "k < size_mh ?m2" "0 < k" "parent_index k \<noteq> 0"
      then have kn: "k < ?n - 1" by simp
      from k(2) have "parent_index k < k" by (simp add: parent_index_def)
      with kn k(3) have pk: "parent_index k < ?n - 1" "0 < parent_index k" by simp_all
      from kn k(2) old[of k] W2[OF kn k(2)] W2[OF pk]
      show "\<not> isBetterThan (slot_weight ?m2 ?ns2 k) (slot_weight ?m2 ?ns2 (parent_index k))"
        by simp
    qed
    have inv2: "0 < (0::nat) \<longrightarrow> (\<forall>k<size_mh ?m2. 0 < k \<longrightarrow> parent_index k = 0 \<longrightarrow>
        \<not> isBetterThan (slot_weight ?m2 ?ns2 k) (slot_weight ?m2 ?ns2 (parent_index 0)))"
      by simp
    from sift_down_swaps_heap_property[OF asym nt l2 c2 z2 inv1 inv2 sd] s'
    show ?thesis unfolding heap_property_iff[OF c'] by simp
  qed
qed

lemma parent_index_less: "0 < k \<Longrightarrow> parent_index k < k"
  by (simp add: parent_index_def)

text \<open>
  The sift-up loop at slot \<open>curr_index\<close> with the node \<open>a\<close> in hand, seen with \<open>a\<close> written
  into that slot: if the heap property holds at every slot but \<open>curr_index\<close>, and the
  children of \<open>curr_index\<close> are not better than its parent, the heap the loop leaves has
  the heap property.
\<close>

lemma bubble_up_loop_heap_property:
  "(\<And>x y. isBetterThan x y \<Longrightarrow> \<not> isBetterThan y x) \<Longrightarrow>
   (\<And>x y z. \<not> isBetterThan x y \<Longrightarrow> \<not> isBetterThan y z \<Longrightarrow> \<not> isBetterThan x z) \<Longrightarrow>
   size_mh minheap \<le> length (heap minheap) \<Longrightarrow> curr_index < size_mh minheap \<Longrightarrow>
   a < length ns \<Longrightarrow>
   (\<forall>k<size_mh minheap. k \<noteq> curr_index \<longrightarrow>
      (\<exists>c. heap minheap ! k = Some c \<and> c < length ns \<and> c \<noteq> a \<and> heapIndex (ns ! c) = k)) \<Longrightarrow>
   (\<forall>k<size_mh minheap. 0 < k \<longrightarrow> k \<noteq> curr_index \<longrightarrow>
      \<not> isBetterThan
          (slot_weight (minheap\<lparr>heap := (heap minheap)[curr_index := Some a]\<rparr>) ns k)
          (slot_weight (minheap\<lparr>heap := (heap minheap)[curr_index := Some a]\<rparr>) ns
             (parent_index k))) \<Longrightarrow>
   (0 < curr_index \<longrightarrow> (\<forall>k<size_mh minheap. 0 < k \<longrightarrow> parent_index k = curr_index \<longrightarrow>
      \<not> isBetterThan
          (slot_weight (minheap\<lparr>heap := (heap minheap)[curr_index := Some a]\<rparr>) ns k)
          (slot_weight (minheap\<lparr>heap := (heap minheap)[curr_index := Some a]\<rparr>) ns
             (parent_index curr_index)))) \<Longrightarrow>
   bubble_up_loop isBetterThan (Some a) minheap ns curr_index = Inr (minheap', ns') \<Longrightarrow>
   (\<forall>k<size_mh minheap. 0 < k \<longrightarrow>
      \<not> isBetterThan (slot_weight minheap' ns' k) (slot_weight minheap' ns' (parent_index k)))"
proof (induction isBetterThan "Some a :: ptr" minheap ns curr_index rule: bubble_up_loop.induct)
  case (1 isBetterThan minheap ns curr_index)
  note asym = "1.prems"(1) and nt = "1.prems"(2)
  note len = "1.prems"(3) and csz = "1.prems"(4) and an = "1.prems"(5)
  note others = "1.prems"(6) and inv1 = "1.prems"(7) and inv2 = "1.prems"(8)
  note res = "1.prems"(9)
  let ?H = "heap minheap" and ?n = "size_mh minheap"
  let ?m' = "minheap\<lparr>heap := ?H[curr_index := Some a]\<rparr>"
  let ?ns' = "ns[a := (ns ! a)\<lparr>heapIndex := curr_index\<rparr>]"
  let ?W = "slot_weight ?m' ns"
  from len csz have cl: "curr_index < length ?H" by simp
  have place: "bubble_up_place (Some a) minheap ns curr_index = Inr (?m', ?ns')"
    using an cl by (simp add: bubble_up_place_def ebind_def heap_set_def set_heapIndex_def)
  have Wc: "?W curr_index = weight (ns ! a)"
    using cl by (simp add: slot_weight_def)
  show ?case
  proof (cases "curr_index > 0")
    case False
    with res place have same: "minheap' = ?m'" "ns' = ?ns'"
      by (subst (asm) bubble_up_loop.simps, simp)+
    from False inv1 show ?thesis by (simp add: same)
  next
    case True
    let ?p = "parent_index curr_index"
    from True have plt: "?p < curr_index" by (simp add: parent_index_def)
    with csz len have psz: "?p < ?n" "?p < length ?H" by simp_all
    from others psz plt obtain b where b: "?H ! ?p = Some b" "b < length ns" "b \<noteq> a"
      "heapIndex (ns ! b) = ?p" by (metis nat_neq_iff)
    have wa: "get_weight ns (Some a) = Inr (weight (ns ! a))"
      using an by (simp add: get_weight_def)
    have gp: "heap_get ?H ?p = Inr (Some b)"
      using psz b by (simp add: heap_get_def)
    have wb: "get_weight ns (Some b) = Inr (weight (ns ! b))"
      using b by (simp add: get_weight_def)
    have Wp: "?W ?p = weight (ns ! b)"
      using plt b by (simp add: slot_weight_def)
    show ?thesis
    proof (cases "isBetterThan (weight (ns ! a)) (weight (ns ! b))")
      case False
      with True wa gp wb res place have same: "minheap' = ?m'" "ns' = ?ns'"
        by (subst (asm) bubble_up_loop.simps, simp add: ebind_def)+
      have "\<not> isBetterThan (?W k) (?W (parent_index k))" if k: "k < ?n" "0 < k" for k
      proof (cases "k = curr_index")
        case True
        with False Wc Wp show ?thesis by simp
      next
        case False
        with inv1 k show ?thesis by blast
      qed
      then show ?thesis by (simp add: same)
    next
      case better: True
      let ?ns1 = "ns[b := (ns ! b)\<lparr>heapIndex := curr_index\<rparr>]"
      let ?m1 = "minheap\<lparr>heap := ?H[curr_index := Some b]\<rparr>"
      let ?W1 = "slot_weight (?m1\<lparr>heap := (heap ?m1)[?p := Some a]\<rparr>) ?ns1"
      have s1: "set_heapIndex ns (Some b) curr_index = Inr ?ns1"
        using b by (simp add: set_heapIndex_def)
      have h1: "heap_set ?H curr_index (Some b) = Inr (?H[curr_index := Some b])"
        using cl by (simp add: heap_set_def)
      have W1: "?W1 k = ?W (if k = ?p then curr_index else if k = curr_index then ?p else k)"
        if "k < ?n" for k
      proof -
        from that len have kl: "k < length ?H" by simp
        consider "k = ?p" | "k = curr_index" | "k \<noteq> ?p" "k \<noteq> curr_index" by blast
        then show ?thesis
        proof cases
          case 1
          with psz plt cl show ?thesis by (simp add: slot_weight_def)
        next
          case 2
          with psz plt cl b(1) show ?thesis by (simp add: slot_weight_def)
        next
          case 3
          with kl show ?thesis by (simp add: slot_weight_def)
        qed
      qed
      have step: "bubble_up_loop isBetterThan (Some a) minheap ns curr_index
          = bubble_up_loop isBetterThan (Some a) ?m1 ?ns1 ?p"
        using True wa gp wb better s1 h1
        by (subst bubble_up_loop.simps) (simp add: ebind_def)
      have others1: "\<forall>k<size_mh ?m1. k \<noteq> ?p \<longrightarrow>
          (\<exists>c. heap ?m1 ! k = Some c \<and> c < length ?ns1 \<and> c \<noteq> a \<and> heapIndex (?ns1 ! c) = k)"
      proof (intro allI impI)
        fix k assume k: "k < size_mh ?m1" "k \<noteq> ?p"
        show "\<exists>c. heap ?m1 ! k = Some c \<and> c < length ?ns1 \<and> c \<noteq> a \<and> heapIndex (?ns1 ! c) = k"
        proof (cases "k = curr_index")
          case True
          with cl b show ?thesis by simp
        next
          case False
          with k others obtain c where c: "?H ! k = Some c" "c < length ns" "c \<noteq> a"
            "heapIndex (ns ! c) = k" by auto
          with k b have "c \<noteq> b" by auto
          with c False show ?thesis by simp
        qed
      qed
      have nba: "\<not> isBetterThan (weight (ns ! b)) (weight (ns ! a))"
        using better asym by blast
      have inv1': "\<forall>k<size_mh ?m1. 0 < k \<longrightarrow> k \<noteq> ?p \<longrightarrow>
          \<not> isBetterThan (?W1 k) (?W1 (parent_index k))"
      proof (intro allI impI)
        fix k assume k: "k < size_mh ?m1" "0 < k" "k \<noteq> ?p"
        then have kn: "k < ?n" by simp
        from k(2) have pkk: "parent_index k < k" by (simp add: parent_index_def)
        with kn have pkn: "parent_index k < ?n" by simp
        show "\<not> isBetterThan (?W1 k) (?W1 (parent_index k))"
        proof (cases "k = curr_index")
          case True
          with W1[OF kn] W1[OF pkn] plt Wc Wp nba show ?thesis by simp
        next
          case kc: False
          from inv1 kn k(2) kc have old: "\<not> isBetterThan (?W k) (?W (parent_index k))" by blast
          show ?thesis
          proof (cases "parent_index k = curr_index")
            case True
            with inv2 \<open>0 < curr_index\<close> kn k(2)
            have "\<not> isBetterThan (?W k) (?W ?p)" by blast
            with W1[OF kn] W1[OF pkn] True kc k(3) plt show ?thesis by simp
          next
            case npc: False
            show ?thesis
            proof (cases "parent_index k = ?p")
              case True
              from old True Wp have "\<not> isBetterThan (?W k) (weight (ns ! b))" by simp
              from nt[OF this nba] have "\<not> isBetterThan (?W k) (weight (ns ! a))" .
              with W1[OF kn] W1[OF pkn] True kc k(3) Wc show ?thesis by simp
            next
              case False
              with W1[OF kn] W1[OF pkn] kc k(3) npc old show ?thesis by simp
            qed
          qed
        qed
      qed
      have inv2': "0 < ?p \<longrightarrow> (\<forall>k<size_mh ?m1. 0 < k \<longrightarrow> parent_index k = ?p \<longrightarrow>
          \<not> isBetterThan (?W1 k) (?W1 (parent_index ?p)))"
      proof (intro allI impI)
        assume p0: "0 < ?p"
        fix k assume k: "k < size_mh ?m1" "0 < k" "parent_index k = ?p"
        then have kn: "k < ?n" by simp
        from p0 have ppp: "parent_index ?p < ?p" by (rule parent_index_less)
        with psz have ppn: "parent_index ?p < ?n" by simp
        from k(2,3) have kp: "?p < k" by (auto simp: parent_index_def)
        from inv1 psz(1) p0 plt have pold: "\<not> isBetterThan (?W ?p) (?W (parent_index ?p))"
          by (metis nat_neq_iff)
        show "\<not> isBetterThan (?W1 k) (?W1 (parent_index ?p))"
        proof (cases "k = curr_index")
          case True
          with W1[OF kn] W1[OF ppn] ppp plt pold show ?thesis by simp
        next
          case False
          with inv1 kn k(2) have "\<not> isBetterThan (?W k) (?W (parent_index k))" by blast
          with k(3) have "\<not> isBetterThan (?W k) (?W ?p)" by simp
          from nt[OF this pold] have "\<not> isBetterThan (?W k) (?W (parent_index ?p))" .
          with W1[OF kn] W1[OF ppn] False kp ppp plt show ?thesis by simp
        qed
      qed
      from res step have res1: "bubble_up_loop isBetterThan (Some a) ?m1 ?ns1 ?p
          = Inr (minheap', ns')" by simp
      have "\<forall>k<size_mh ?m1. 0 < k \<longrightarrow>
          \<not> isBetterThan (slot_weight minheap' ns' k) (slot_weight minheap' ns' (parent_index k))"
        using "1.hyps"[OF True wa gp wb better s1 h1 asym nt _ _ _ others1 inv1' inv2' res1]
          len psz an by simp
      then show ?thesis by simp
    qed
  qed
qed

text \<open>
  \<^verbatim>\<open>MinHeap_bubble_up\<close> from a resident slot \<open>i\<close>: if only the node in slot \<open>i\<close> may be
  better than its parent (its key has just been made better, or it has just been
  appended), the heap it leaves has the heap property.
\<close>

lemma bubble_up_heap_property:
  assumes asym: "\<And>x y. isBetterThan x y \<Longrightarrow> \<not> isBetterThan y x"
    and nt: "\<And>x y z. \<not> isBetterThan x y \<Longrightarrow> \<not> isBetterThan y z \<Longrightarrow> \<not> isBetterThan x z"
    and len: "size_mh minheap \<le> length (heap minheap)"
    and cons: "heapIndex_consistent minheap ns"
    and isz: "i < size_mh minheap"
    and inv1: "\<forall>k<size_mh minheap. 0 < k \<longrightarrow> k \<noteq> i \<longrightarrow>
        \<not> isBetterThan (slot_weight minheap ns k) (slot_weight minheap ns (parent_index k))"
    and inv2: "0 < i \<longrightarrow> (\<forall>k<size_mh minheap. 0 < k \<longrightarrow> parent_index k = i \<longrightarrow>
        \<not> isBetterThan (slot_weight minheap ns k) (slot_weight minheap ns (parent_index i)))"
    and res: "MinHeap_bubble_up minheap ns i isBetterThan = Inr (minheap', ns')"
  shows "heap_property isBetterThan minheap' ns'"
proof -
  from isz cons obtain a where a: "heap minheap ! i = Some a" "a < length ns"
    "heapIndex (ns ! a) = i"
    by (auto simp: heapIndex_consistent_iff)
  have others: "\<forall>k<size_mh minheap. k \<noteq> i \<longrightarrow>
      (\<exists>c. heap minheap ! k = Some c \<and> c < length ns \<and> c \<noteq> a \<and> heapIndex (ns ! c) = k)"
  proof (intro allI impI)
    fix k assume k: "k < size_mh minheap" "k \<noteq> i"
    with cons obtain c where c: "heap minheap ! k = Some c" "c < length ns"
      "heapIndex (ns ! c) = k"
      by (auto simp: heapIndex_consistent_iff)
    with k a have "c \<noteq> a" by auto
    with c show "\<exists>c. heap minheap ! k = Some c \<and> c < length ns \<and> c \<noteq> a
        \<and> heapIndex (ns ! c) = k" by simp
  qed
  have "(heap minheap)[i := Some a] = heap minheap"
    using a(1) by (metis list_update_id)
  then have id: "minheap\<lparr>heap := (heap minheap)[i := Some a]\<rparr> = minheap"
    by simp
  from res a isz len have loop: "bubble_up_loop isBetterThan (Some a) minheap ns i
      = Inr (minheap', ns')"
    by (simp add: MinHeap_bubble_up_def ebind_def heap_get_def)
  from bubble_up_consistent[OF len isz cons, of isBetterThan] res
  have c': "heapIndex_consistent minheap' ns'" and s': "size_mh minheap' = size_mh minheap"
    by simp_all
  have "\<forall>k<size_mh minheap. 0 < k \<longrightarrow>
      \<not> isBetterThan (slot_weight minheap' ns' k) (slot_weight minheap' ns' (parent_index k))"
    using asym nt len isz a(2) others _ _ loop
  proof (rule bubble_up_loop_heap_property)
    show "\<forall>k<size_mh minheap. 0 < k \<longrightarrow> k \<noteq> i \<longrightarrow>
        \<not> isBetterThan (slot_weight (minheap\<lparr>heap := (heap minheap)[i := Some a]\<rparr>) ns k)
            (slot_weight (minheap\<lparr>heap := (heap minheap)[i := Some a]\<rparr>) ns (parent_index k))"
      using inv1 by (simp only: id)
    show "0 < i \<longrightarrow> (\<forall>k<size_mh minheap. 0 < k \<longrightarrow> parent_index k = i \<longrightarrow>
        \<not> isBetterThan (slot_weight (minheap\<lparr>heap := (heap minheap)[i := Some a]\<rparr>) ns k)
            (slot_weight (minheap\<lparr>heap := (heap minheap)[i := Some a]\<rparr>) ns (parent_index i)))"
      using inv2 by (simp only: id)
  qed
  with s' show ?thesis unfolding heap_property_iff[OF c'] by simp
qed

text \<open>
  Hence \<^verbatim>\<open>MinHeap_update_key\<close> keeps the heap property for a resident node, and for a new
  node whose \<^verbatim>\<open>heapIndex\<close> already holds the old size.
\<close>

lemma update_key_resident_heap_property:
  assumes asym: "\<And>x y. isBetterThan x y \<Longrightarrow> \<not> isBetterThan y x"
    and nt: "\<And>x y z. \<not> isBetterThan x y \<Longrightarrow> \<not> isBetterThan y z \<Longrightarrow> \<not> isBetterThan x z"
    and len: "size_mh minheap \<le> length (heap minheap)"
    and cons: "heapIndex_consistent minheap ns"
    and hp: "heap_property isBetterThan minheap ns"
    and a: "a < length ns" "heapIndex (ns ! a) < size_mh minheap"
    and res: "MinHeap_update_key minheap ns (Some a) False isBetterThan = Inr (minheap', ns')"
  shows "heap_property isBetterThan minheap' ns'"
proof -
  let ?i = "heapIndex (ns ! a)"
  let ?W = "slot_weight minheap ns"
  from res a have bu: "MinHeap_bubble_up minheap ns ?i isBetterThan = Inr (minheap', ns')"
    by (simp add: MinHeap_update_key_def ebind_def get_heapIndex_def)
  have old: "\<not> isBetterThan (?W k) (?W (parent_index k))" if "k < size_mh minheap" "0 < k" for k
    using hp that unfolding heap_property_iff[OF cons] by blast
  have inv1: "\<forall>k<size_mh minheap. 0 < k \<longrightarrow> k \<noteq> ?i \<longrightarrow>
      \<not> isBetterThan (?W k) (?W (parent_index k))"
    using old by blast
  have inv2: "0 < ?i \<longrightarrow> (\<forall>k<size_mh minheap. 0 < k \<longrightarrow> parent_index k = ?i \<longrightarrow>
      \<not> isBetterThan (?W k) (?W (parent_index ?i)))"
  proof (intro allI impI)
    fix k assume i0: "0 < ?i" and k: "k < size_mh minheap" "0 < k" "parent_index k = ?i"
    from old[OF k(1,2)] k(3) have "\<not> isBetterThan (?W k) (?W ?i)" by simp
    from nt[OF this old[OF a(2) i0]]
    show "\<not> isBetterThan (?W k) (?W (parent_index ?i))" .
  qed
  from asym nt len cons a(2) inv1 inv2 bu show ?thesis
    by (rule bubble_up_heap_property)
qed

lemma update_key_new_heap_property_if_position_stored:
  assumes asym: "\<And>x y. isBetterThan x y \<Longrightarrow> \<not> isBetterThan y x"
    and nt: "\<And>x y z. \<not> isBetterThan x y \<Longrightarrow> \<not> isBetterThan y z \<Longrightarrow> \<not> isBetterThan x z"
    and len: "size_mh minheap < length (heap minheap)"
    and cons: "heapIndex_consistent minheap ns"
    and hp: "heap_property isBetterThan minheap ns"
    and a: "a < length ns" "heapIndex (ns ! a) = size_mh minheap"
    and res: "MinHeap_update_key minheap ns (Some a) True isBetterThan = Inr (minheap', ns')"
  shows "heap_property isBetterThan minheap' ns'"
proof -
  let ?n = "size_mh minheap"
  let ?m = "minheap\<lparr>heap := (heap minheap)[?n := Some a], size_mh := ?n + 1\<rparr>"
  let ?W = "slot_weight minheap ns"
  from res have ne: "?n \<noteq> capacity minheap"
    by (auto simp: MinHeap_update_key_def ebind_def split: if_splits)
  from res ne len a have bu: "MinHeap_bubble_up ?m ns ?n isBetterThan = Inr (minheap', ns')"
    by (simp add: MinHeap_update_key_def ebind_def heap_set_def get_heapIndex_def)
  have c: "heapIndex_consistent ?m ns"
    unfolding heapIndex_consistent_iff
  proof (intro allI impI)
    fix i assume "i < size_mh ?m"
    then have "i < ?n \<or> i = ?n" by auto
    then show "\<exists>b. heap ?m ! i = Some b \<and> b < length ns \<and> heapIndex (ns ! b) = i"
    proof
      assume "i < ?n"
      with cons show ?thesis by (auto simp: heapIndex_consistent_iff)
    next
      assume "i = ?n"
      with len a show ?thesis by simp
    qed
  qed
  have old: "\<not> isBetterThan (?W k) (?W (parent_index k))" if "k < ?n" "0 < k" for k
    using hp that unfolding heap_property_iff[OF cons] by blast
  have Wm: "slot_weight ?m ns k = ?W k" if "k < ?n" for k
    using that by (simp add: slot_weight_def)
  have inv1: "\<forall>k<size_mh ?m. 0 < k \<longrightarrow> k \<noteq> ?n \<longrightarrow>
      \<not> isBetterThan (slot_weight ?m ns k) (slot_weight ?m ns (parent_index k))"
  proof (intro allI impI)
    fix k assume k: "k < size_mh ?m" "0 < k" "k \<noteq> ?n"
    then have kn: "k < ?n" by simp
    from k(2) have "parent_index k < k" by (rule parent_index_less)
    with kn have "parent_index k < ?n" by simp
    with old[OF kn k(2)] Wm[OF kn] Wm[of "parent_index k"]
    show "\<not> isBetterThan (slot_weight ?m ns k) (slot_weight ?m ns (parent_index k))" by simp
  qed
  have inv2: "0 < ?n \<longrightarrow> (\<forall>k<size_mh ?m. 0 < k \<longrightarrow> parent_index k = ?n \<longrightarrow>
      \<not> isBetterThan (slot_weight ?m ns k) (slot_weight ?m ns (parent_index ?n)))"
  proof (intro allI impI)
    fix k assume k: "k < size_mh ?m" "0 < k" "parent_index k = ?n"
    from k(2) have "parent_index k < k" by (rule parent_index_less)
    with k(1,3) have False by simp
    then show "\<not> isBetterThan (slot_weight ?m ns k) (slot_weight ?m ns (parent_index ?n))" ..
  qed
  have l: "size_mh ?m \<le> length (heap ?m)" and i: "?n < size_mh ?m"
    using len by simp_all
  from asym nt l c i inv1 inv2 bu show ?thesis
    by (rule bubble_up_heap_property)
qed

end
